theory Spec2Isabelle
  imports Main "HOL-Library.Word" "HOL-Library.Multiset"
begin

section \<open>The fibers accelerator of alpaka (include/alpaka/AccFibers.hpp)\<close>

text \<open>
  The accelerator runs every kernel of a block as a fiber of one thread. Fibers are
  cooperative: a fiber runs until it suspends itself, and the only places where the
  code of this file suspends are the construction of a fiber, the wait on the condition
  variable of a \<open>FiberBarrier\<close> and the join of a fiber. The embedding therefore keeps
  the members of \<open>AccFibers\<close> and of its \<open>KernelExecutor\<close> in one record, gives every
  fiber a program counter into the code of \<open>fiberKernel\<close>, and lets a list of scheduler
  events say which fiber runs next; the code between two suspension points is one step.
\<close>

subsection \<open>Data\<close>

text \<open>
  Modelled from the spec: \<open>vec<3u>\<close> is declared in a header that is not part of the
  sources at hand; the spec calls it a 3-tuple of unsigned integers. The components are
  written (x, y, z), the indices 0, 1 and 2 of the code.
\<close>
type_synonym vec3 = "nat \<times> nat \<times> nat"

text \<open>\<open>boost::fibers::fiber::id\<close> is opaque; only equality of ids is used.\<close>
type_synonym fiber_id = nat

text \<open>\<open>std::size_t\<close> and \<open>uint8_t\<close>.\<close>
type_synonym size_t = "64 word"
type_synonym uint8_t = "8 word"

text \<open>
  Modelled from the spec: the work size (WorkSize.hpp) is not part of the sources at hand;
  the spec says it supplies the extents of the grid in blocks, the extents of a block in
  kernels and the linearized count of kernels of a block.
\<close>
record WorkSize =
  sizeGridBlocks :: vec3
  sizeBlockKernels :: vec3

definition prod3 :: "vec3 \<Rightarrow> nat" where
  "prod3 v = (case v of (x, y, z) \<Rightarrow> x * y * z)"

definition getSizeBlockKernelsLinear :: "WorkSize \<Rightarrow> nat" where
  "getSizeBlockKernelsLinear ws = prod3 (sizeBlockKernels ws)"

datatype error =
    RuntimeError string
  | AssertionFailed
  | StaticAssertFailed string
  | EmptyVectorBack

text \<open>
  What a kernel body may do with the accelerator it inherits from: the protected members
  of \<open>AccFibers\<close>. \<open>AllocBlockSharedMem sz n\<close> is a call of
  \<open>allocBlockSharedMem<T, n>\<close> with \<open>sizeof(T) = sz\<close>. A kernel that reads an index
  or a pointer writes what it got to its output (\<open>recorded\<close> below).
\<close>
datatype kernel_op =
    CallSyncBlockKernels
  | AllocBlockSharedMem nat nat
  | RecordIdxBlockKernel
  | RecordBlockSharedExternMem

text \<open>
  The kernel and what the executor asks of it: the body and the specialisation of
  \<open>BlockSharedExternMemSizeBytes\<close>, which is declared elsewhere.
\<close>
record Kernel =
  body :: "kernel_op list"
  getBlockSharedExternMemSizeBytes :: "vec3 \<Rightarrow> nat"

text \<open>
  The code of a fiber, cut at the suspension points. \<open>Register\<close> is the entry of
  \<open>fiberKernel\<close> up to the first synchronisation; \<open>EmplaceBack\<close> and
  \<open>ReturnBack sz n\<close> are the two parts of \<open>allocBlockSharedMem<T, n>\<close> between and
  after its two synchronisations.
\<close>
datatype lane_op =
    Register
  | SyncBlockKernels
  | EmplaceBack
  | ReturnBack nat nat
  | GetIdxBlockKernel
  | GetBlockSharedExternMem

text \<open>
  A fiber is ready to run, suspended in the wait of the barrier with the given index,
  notified there (it has to evaluate the predicate of the wait again when it runs), or
  has returned from \<open>fiberKernel\<close>.
\<close>
datatype fiber_status = Ready | Suspended nat | Notified nat | Done

record Fiber =
  f_id :: fiber_id
  f_arg :: vec3
  f_pc :: nat
  f_status :: fiber_status

text \<open>
  What a kernel wrote: the block and the index it read; for an allocation the block, the
  bytes asked for, the position of the buffer whose address was returned and the bytes
  that buffer holds; for the external memory the block and the bytes the buffer holds.
\<close>
datatype entry =
    RecIdx vec3 vec3
  | RecAlloc vec3 nat nat nat
  | RecExtern vec3 nat

text \<open>
  The mutex of the barrier is never contended (a fiber that holds it does not suspend
  before it releases it, and the wait on the condition variable releases it), so the
  barrier is its counter; the fibers waiting on its condition variable are the fibers
  whose status is \<open>Suspended\<close> with its index.
\<close>
record FiberBarrier =
  m_uiNumFibersToWaitFor :: size_t

record State =
  m_workSize :: WorkSize
  m_mFibersToIndices :: "fiber_id \<rightharpoonup> vec3"
  m_v3uiGridBlockIdx :: vec3
  m_uiNumKernelsPerBlock :: size_t
  m_mFibersToBarrier :: "fiber_id \<rightharpoonup> size_t"
  m_abarSyncFibers :: "nat \<Rightarrow> FiberBarrier"
  m_idMasterFiber :: "fiber_id option"
  m_vvuiSharedMem :: "uint8_t list list"
  m_vuiExternalSharedMem :: "uint8_t list"
  m_vFibersInBlock :: "Fiber list"
  toSpawn :: "vec3 list"
  running :: "nat option"
  recorded :: "entry list"

text \<open>
  \<open>m_abarSyncFibers\<close> is an array of two barriers, only ever indexed by a value
  \<open>% 2\<close>. \<open>m_idMasterFiber\<close> is \<open>None\<close> for the default-constructed id, which is
  the id of no fiber. \<open>toSpawn\<close> holds the iterations that the three loops over the
  kernels of the block still have to make, \<open>running\<close> the position in
  \<open>m_vFibersInBlock\<close> of the fiber that has control (\<open>None\<close> at a suspension
  point), \<open>recorded\<close> the output of the kernels.
\<close>

datatype 'a outcome = Finished 'a | Failed error State | Unscheduled State

text \<open>
  \<open>Failed\<close> is an exception or a failed assertion, with the state it leaves behind;
  \<open>Unscheduled\<close> says that the list of scheduler events named an event that cannot
  happen or ended before the fibers of a block did, and gives the state of the executor at
  that point. As the events are arbitrary, these are the states in which the executor can
  be found while a block runs.
\<close>

datatype event = Spawn fiber_id | Resume nat

subsection \<open>Limits\<close>

definition getSizeBlockKernelsLinearMax :: nat where
  "getSizeBlockKernelsLinearMax = 1024"

definition getSizeBlockKernelsMax :: vec3 where
  "getSizeBlockKernelsMax =
     (let uiSizeBlockKernelsLinearMax = getSizeBlockKernelsLinearMax
      in (uiSizeBlockKernelsLinearMax, uiSizeBlockKernelsLinearMax, uiSizeBlockKernelsLinearMax))"

subsection \<open>IndexFibers\<close>

definition getIdxBlockKernel :: "fiber_id \<Rightarrow> State \<Rightarrow> error + vec3" where
  "getIdxBlockKernel idFiber s =
     (case m_mFibersToIndices s idFiber of
        None \<Rightarrow> Inl AssertionFailed
      | Some v \<Rightarrow> Inr v)"

definition getIdxGridBlock :: "State \<Rightarrow> vec3" where
  "getIdxGridBlock s = m_v3uiGridBlockIdx s"

subsection \<open>FiberBarrier\<close>

definition getNumFibersToWaitFor :: "FiberBarrier \<Rightarrow> size_t" where
  "getNumFibersToWaitFor bar = m_uiNumFibersToWaitFor bar"

definition reset :: "size_t \<Rightarrow> FiberBarrier \<Rightarrow> FiberBarrier" where
  "reset uiNumFibersToWaitFor bar = bar\<lparr>m_uiNumFibersToWaitFor := uiNumFibersToWaitFor\<rparr>"

text \<open>
  \<open>wait\<close> up to its suspension point: the counter is decremented (a \<open>std::size_t\<close>,
  so 0 wraps to the largest value); the result says whether it reached zero, in which
  case the caller notifies all waiting fibers and returns, and otherwise suspends.
\<close>
definition wait_arrive :: "FiberBarrier \<Rightarrow> bool \<times> FiberBarrier" where
  "wait_arrive bar =
     (let c = m_uiNumFibersToWaitFor bar - 1
      in (c = 0, bar\<lparr>m_uiNumFibersToWaitFor := c\<rparr>))"

text \<open>The predicate of the wait on the condition variable.\<close>
definition wait_predicate :: "FiberBarrier \<Rightarrow> bool" where
  "wait_predicate bar = (m_uiNumFibersToWaitFor bar = 0)"

subsection \<open>A barrier on its own\<close>

text \<open>
  Tasks that call \<open>wait\<close> on one barrier: a task has not called yet, is suspended in
  the wait on the condition variable, has been notified, or has returned. \<open>Call t\<close> is
  the call by task \<open>t\<close> up to its suspension or return, \<open>Wake t\<close> is task \<open>t\<close>
  running again after a notification.
\<close>
datatype task_status = NotCalled | Waiting | Woken | Returned

record BarrierRun =
  bar :: FiberBarrier
  tasks :: "task_status list"

datatype bar_event = Call nat | Wake nat

definition bar_enabled :: "bar_event \<Rightarrow> BarrierRun \<Rightarrow> bool" where
  "bar_enabled e r =
     (case e of
        Call t \<Rightarrow> t < length (tasks r) \<and> tasks r ! t = NotCalled
      | Wake t \<Rightarrow> t < length (tasks r) \<and> tasks r ! t = Woken)"

definition notify_all_tasks :: "task_status list \<Rightarrow> task_status list" where
  "notify_all_tasks ts = map (\<lambda>st. if st = Waiting then Woken else st) ts"

definition bar_step :: "bar_event \<Rightarrow> BarrierRun \<Rightarrow> BarrierRun" where
  "bar_step e r =
     (case e of
        Call t \<Rightarrow>
          (case wait_arrive (bar r) of
             (True, b) \<Rightarrow> \<lparr>bar = b, tasks = (notify_all_tasks (tasks r))[t := Returned]\<rparr>
           | (False, b) \<Rightarrow> \<lparr>bar = b, tasks = (tasks r)[t := Waiting]\<rparr>)
      | Wake t \<Rightarrow>
          (if wait_predicate (bar r) then r\<lparr>tasks := (tasks r)[t := Returned]\<rparr>
           else r\<lparr>tasks := (tasks r)[t := Waiting]\<rparr>))"

fun bar_run :: "bar_event list \<Rightarrow> BarrierRun \<Rightarrow> BarrierRun option" where
  "bar_run [] r = Some r"
| "bar_run (e # es) r = (if bar_enabled e r then bar_run es (bar_step e r) else None)"

definition bar_init :: "size_t \<Rightarrow> BarrierRun" where
  "bar_init c = \<lparr>bar = \<lparr>m_uiNumFibersToWaitFor = c\<rparr>, tasks = replicate (unat c) NotCalled\<rparr>"

subsection \<open>AccFibers\<close>

definition set_fiber :: "nat \<Rightarrow> (Fiber \<Rightarrow> Fiber) \<Rightarrow> State \<Rightarrow> State" where
  "set_fiber i g s = s\<lparr>m_vFibersInBlock := (m_vFibersInBlock s)[i := g (m_vFibersInBlock s ! i)]\<rparr>"

text \<open>\<open>notify_all\<close> on the condition variable of barrier \<open>b\<close>.\<close>
definition notify_all :: "nat \<Rightarrow> State \<Rightarrow> State" where
  "notify_all b s =
     s\<lparr>m_vFibersInBlock :=
         map (\<lambda>f. if f_status f = Suspended b then f\<lparr>f_status := Notified b\<rparr> else f)
           (m_vFibersInBlock s)\<rparr>"

text \<open>
  \<open>syncBlockKernels\<close> up to the suspension point of \<open>wait\<close>: the result is whether the
  wait returned at once, the index of the barrier, and the state.
\<close>
definition syncBlockKernels_arrive :: "fiber_id \<Rightarrow> State \<Rightarrow> error + (bool \<times> nat \<times> State)" where
  "syncBlockKernels_arrive idFiber s =
     (case m_mFibersToBarrier s idFiber of
        None \<Rightarrow> Inl AssertionFailed
      | Some uiBarIndex \<Rightarrow>
          (let uiBarrierIndex = unat uiBarIndex mod 2;
               bar0 = m_abarSyncFibers s uiBarrierIndex;
               bar1 = (if getNumFibersToWaitFor bar0 = 0
                       then reset (m_uiNumKernelsPerBlock s) bar0 else bar0);
               (released, bar2) = wait_arrive bar1;
               s1 = s\<lparr>m_abarSyncFibers := (m_abarSyncFibers s)(uiBarrierIndex := bar2)\<rparr>
           in Inr (released, uiBarrierIndex,
                   if released then notify_all uiBarrierIndex s1 else s1)))"

text \<open>\<open>syncBlockKernels\<close> after \<open>wait\<close> has returned: \<open>++uiBarIndex\<close>.\<close>
definition syncBlockKernels_leave :: "fiber_id \<Rightarrow> State \<Rightarrow> error + State" where
  "syncBlockKernels_leave idFiber s =
     (case m_mFibersToBarrier s idFiber of
        None \<Rightarrow> Inl AssertionFailed
      | Some uiBarIndex \<Rightarrow>
          Inr (s\<lparr>m_mFibersToBarrier := (m_mFibersToBarrier s)(idFiber \<mapsto> uiBarIndex + 1)\<rparr>))"

text \<open>
  \<open>allocBlockSharedMem\<close> between its two synchronisations: \<open>emplace_back()\<close> appends
  a default-constructed, that is empty, vector of bytes.
\<close>
definition emplace_back_if_master :: "fiber_id \<Rightarrow> State \<Rightarrow> State" where
  "emplace_back_if_master idFiber s =
     (if m_idMasterFiber s = Some idFiber
      then s\<lparr>m_vvuiSharedMem := m_vvuiSharedMem s @ [[]]\<rparr>
      else s)"

text \<open>
  \<open>allocBlockSharedMem\<close> after its second synchronisation: the address of the storage
  of the last buffer, here the position of that buffer and the bytes it holds.
\<close>
definition return_back :: "State \<Rightarrow> error + (nat \<times> nat)" where
  "return_back s =
     (if m_vvuiSharedMem s = [] then Inl EmptyVectorBack
      else Inr (length (m_vvuiSharedMem s) - 1, length (last (m_vvuiSharedMem s))))"

definition getBlockSharedExternMem :: "State \<Rightarrow> nat" where
  "getBlockSharedExternMem s = length (m_vuiExternalSharedMem s)"

subsection \<open>KernelExecutor\<close>

text \<open>\<open>std::map::insert\<close> keeps the old value of a key that is present.\<close>
definition map_insert :: "('k \<rightharpoonup> 'v) \<Rightarrow> 'k \<Rightarrow> 'v \<Rightarrow> ('k \<rightharpoonup> 'v)" where
  "map_insert m k v = (case m k of None \<Rightarrow> m(k \<mapsto> v) | Some _ \<Rightarrow> m)"

text \<open>The entry of \<open>fiberKernel\<close>.\<close>
definition register_fiber :: "fiber_id \<Rightarrow> vec3 \<Rightarrow> State \<Rightarrow> State" where
  "register_fiber idFiber v3uiBlockKernelIdx s =
     (let s1 = (if v3uiBlockKernelIdx = (0, 0, 0)
                then s\<lparr>m_idMasterFiber := Some idFiber\<rparr> else s)
      in s1\<lparr>m_mFibersToIndices := map_insert (m_mFibersToIndices s1) idFiber v3uiBlockKernelIdx,
            m_mFibersToBarrier := map_insert (m_mFibersToBarrier s1) idFiber 0\<rparr>)"

fun kernel_op_code :: "kernel_op \<Rightarrow> lane_op list" where
  "kernel_op_code CallSyncBlockKernels = [SyncBlockKernels]"
| "kernel_op_code (AllocBlockSharedMem sz n) =
     [SyncBlockKernels, EmplaceBack, SyncBlockKernels, ReturnBack sz n]"
| "kernel_op_code RecordIdxBlockKernel = [GetIdxBlockKernel]"
| "kernel_op_code RecordBlockSharedExternMem = [GetBlockSharedExternMem]"

definition fiberKernel :: "kernel_op list \<Rightarrow> lane_op list" where
  "fiberKernel k =
     [Register, SyncBlockKernels] @ concat (map kernel_op_code k) @ [SyncBlockKernels]"

text \<open>A fiber goes on to its next operation, or returns from \<open>fiberKernel\<close>.\<close>
definition advance :: "lane_op list \<Rightarrow> nat \<Rightarrow> State \<Rightarrow> State" where
  "advance prog i s =
     (let f = m_vFibersInBlock s ! i;
          done = (Suc (f_pc f) \<ge> length prog)
      in (set_fiber i (\<lambda>f. f\<lparr>f_pc := Suc (f_pc f), f_status := (if done then Done else Ready)\<rparr>) s)
           \<lparr>running := (if done then None else Some i)\<rparr>)"

definition suspend :: "nat \<Rightarrow> nat \<Rightarrow> State \<Rightarrow> State" where
  "suspend i b s = (set_fiber i (\<lambda>f. f\<lparr>f_status := Suspended b\<rparr>) s)\<lparr>running := None\<rparr>"

definition record_entry :: "entry \<Rightarrow> State \<Rightarrow> State" where
  "record_entry e s = s\<lparr>recorded := recorded s @ [e]\<rparr>"

text \<open>One operation of the fiber at position \<open>i\<close>, which is ready.\<close>
definition exec_op :: "lane_op list \<Rightarrow> nat \<Rightarrow> lane_op \<Rightarrow> State \<Rightarrow> error + State" where
  "exec_op prog i op s =
     (let f = m_vFibersInBlock s ! i; idFiber = f_id f in
      case op of
        Register \<Rightarrow> Inr (advance prog i (register_fiber idFiber (f_arg f) s))
      | SyncBlockKernels \<Rightarrow>
          (case syncBlockKernels_arrive idFiber s of
             Inl e \<Rightarrow> Inl e
           | Inr (released, b, s1) \<Rightarrow>
               if released
               then (case syncBlockKernels_leave idFiber s1 of
                       Inl e \<Rightarrow> Inl e
                     | Inr s2 \<Rightarrow> Inr (advance prog i s2))
               else Inr (suspend i b s1))
      | EmplaceBack \<Rightarrow> Inr (advance prog i (emplace_back_if_master idFiber s))
      | ReturnBack sz n \<Rightarrow>
          (case return_back s of
             Inl e \<Rightarrow> Inl e
           | Inr (pos, bytes) \<Rightarrow>
               Inr (advance prog i (record_entry (RecAlloc (getIdxGridBlock s) (sz * n) pos bytes) s)))
      | GetIdxBlockKernel \<Rightarrow>
          (case getIdxBlockKernel idFiber s of
             Inl e \<Rightarrow> Inl e
           | Inr v \<Rightarrow> Inr (advance prog i (record_entry (RecIdx (getIdxGridBlock s) v) s)))
      | GetBlockSharedExternMem \<Rightarrow>
          Inr (advance prog i
                 (record_entry (RecExtern (getIdxGridBlock s) (getBlockSharedExternMem s)) s)))"

text \<open>
  The fiber at position \<open>i\<close> gets control. A notified fiber is inside \<open>wait\<close>: it
  evaluates the predicate, and returns from \<open>wait\<close> and finishes \<open>syncBlockKernels\<close>,
  or waits again.
\<close>
definition resume :: "lane_op list \<Rightarrow> nat \<Rightarrow> State \<Rightarrow> error + State" where
  "resume prog i s =
     (let f = m_vFibersInBlock s ! i in
      case f_status f of
        Ready \<Rightarrow> exec_op prog i (prog ! f_pc f) s
      | Notified b \<Rightarrow>
          (if wait_predicate (m_abarSyncFibers s b)
           then (case syncBlockKernels_leave (f_id f) s of
                   Inl e \<Rightarrow> Inl e
                 | Inr s1 \<Rightarrow> Inr (advance prog i s1))
           else Inr (suspend i b s))
      | Suspended b \<Rightarrow> Inr s
      | Done \<Rightarrow> Inr s)"

text \<open>
  The construction of the next fiber of the block, with a copy of the index of the loops.
  Its id is one that no fiber that has not returned yet has.
\<close>
definition spawn :: "fiber_id \<Rightarrow> State \<Rightarrow> State" where
  "spawn idFiber s =
     (case toSpawn s of
        [] \<Rightarrow> s
      | v3uiBlockKernelIdx # rest \<Rightarrow>
          s\<lparr>m_vFibersInBlock := m_vFibersInBlock s @
               [\<lparr>f_id = idFiber, f_arg = v3uiBlockKernelIdx, f_pc = 0, f_status = Ready\<rparr>],
            toSpawn := rest\<rparr>)"

definition alive_ids :: "State \<Rightarrow> fiber_id list" where
  "alive_ids s = map f_id (filter (\<lambda>f. f_status f \<noteq> Done) (m_vFibersInBlock s))"

definition can_run :: "lane_op list \<Rightarrow> Fiber \<Rightarrow> bool" where
  "can_run prog f =
     (case f_status f of
        Ready \<Rightarrow> f_pc f < length prog
      | Notified b \<Rightarrow> True
      | _ \<Rightarrow> False)"

definition enabled :: "lane_op list \<Rightarrow> event \<Rightarrow> State \<Rightarrow> bool" where
  "enabled prog e s =
     (case e of
        Spawn idFiber \<Rightarrow>
          running s = None \<and> toSpawn s \<noteq> [] \<and> idFiber \<notin> set (alive_ids s)
      | Resume i \<Rightarrow>
          i < length (m_vFibersInBlock s) \<and> (running s = None \<or> running s = Some i)
          \<and> can_run prog (m_vFibersInBlock s ! i))"

definition step :: "lane_op list \<Rightarrow> event \<Rightarrow> State \<Rightarrow> error + State" where
  "step prog e s =
     (case e of
        Spawn idFiber \<Rightarrow> Inr (spawn idFiber s)
      | Resume i \<Rightarrow> resume prog i s)"

text \<open>All fibers of the block have been constructed and every join returns.\<close>
definition all_joined :: "State \<Rightarrow> bool" where
  "all_joined s = (toSpawn s = [] \<and> list_all (\<lambda>f. f_status f = Done) (m_vFibersInBlock s))"

text \<open>
  The fibers of one block under the scheduler events \<open>es\<close>, up to the point where
  all joins have returned; the events that are left belong to the next block.
\<close>
fun run_fibers :: "lane_op list \<Rightarrow> event list \<Rightarrow> State \<Rightarrow> (State \<times> event list) outcome" where
  "run_fibers prog [] s = (if all_joined s then Finished (s, []) else Unscheduled s)"
| "run_fibers prog (e # es) s =
     (if all_joined s then Finished (s, e # es)
      else if enabled prog e s
      then (case step prog e s of
              Inl err \<Rightarrow> Failed err s
            | Inr s1 \<Rightarrow> run_fibers prog es s1)
      else Unscheduled s)"

text \<open>The indices that three nested loops, the last component outermost, run through.\<close>
definition indices3 :: "vec3 \<Rightarrow> vec3 list" where
  "indices3 v =
     (case v of (sx, sy, sz) \<Rightarrow>
        concat (map (\<lambda>z. concat (map (\<lambda>y. map (\<lambda>x. (x, y, z)) [0..<sx]) [0..<sy])) [0..<sz]))"

text \<open>The assignment \<open>v[i] = a\<close> to a component of a \<open>vec<3u>\<close>.\<close>
definition vec_set :: "vec3 \<Rightarrow> nat \<Rightarrow> nat \<Rightarrow> vec3" where
  "vec_set v i a =
     (case v of (x, y, z) \<Rightarrow> if i = 0 then (a, y, z) else if i = 1 then (x, a, z) else (x, y, a))"

text \<open>
  The body of the innermost loop over the blocks up to the construction of the first
  fiber: \<open>b\<close> is the index of the block after the assignment to its component 0, and the
  three loops over the kernels of the block have all their iterations ahead.
\<close>
definition begin_block :: "vec3 \<Rightarrow> vec3 \<Rightarrow> State \<Rightarrow> State" where
  "begin_block v3uiSizeBlockKernels b s =
     s\<lparr>m_v3uiGridBlockIdx := b, toSpawn := indices3 v3uiSizeBlockKernels, running := None\<rparr>"

text \<open>The clean up after the joins.\<close>
definition end_block :: "State \<Rightarrow> State" where
  "end_block s =
     s\<lparr>m_vFibersInBlock := [],
       m_mFibersToIndices := Map.empty,
       m_mFibersToBarrier := Map.empty,
       m_vvuiSharedMem := [],
       m_vuiExternalSharedMem := []\<rparr>"

text \<open>
  The three loops over the blocks of the grid, the innermost first. Each loop assigns its
  variable to its component of \<open>m_v3uiGridBlockIdx\<close> before it runs its body; the lists
  hold the values that the loop variable has still to take.
\<close>
fun loop_bx ::
  "lane_op list \<Rightarrow> vec3 \<Rightarrow> nat list \<Rightarrow> event list \<Rightarrow> State \<Rightarrow> (State \<times> event list) outcome" where
  "loop_bx prog sz [] es s = Finished (s, es)"
| "loop_bx prog sz (bx # bxs) es s =
     (case run_fibers prog es (begin_block sz (vec_set (m_v3uiGridBlockIdx s) 0 bx) s) of
        Finished (s1, es1) \<Rightarrow> loop_bx prog sz bxs es1 (end_block s1)
      | Failed err s1 \<Rightarrow> Failed err s1
      | Unscheduled s1 \<Rightarrow> Unscheduled s1)"

fun loop_by ::
  "lane_op list \<Rightarrow> vec3 \<Rightarrow> nat \<Rightarrow> nat list \<Rightarrow> event list \<Rightarrow> State
     \<Rightarrow> (State \<times> event list) outcome" where
  "loop_by prog sz gx [] es s = Finished (s, es)"
| "loop_by prog sz gx (b_y # bys) es s =
     (case loop_bx prog sz [0..<gx] es
             (s\<lparr>m_v3uiGridBlockIdx := vec_set (m_v3uiGridBlockIdx s) 1 b_y\<rparr>) of
        Finished (s1, es1) \<Rightarrow> loop_by prog sz gx bys es1 s1
      | Failed err s1 \<Rightarrow> Failed err s1
      | Unscheduled s1 \<Rightarrow> Unscheduled s1)"

fun loop_bz ::
  "lane_op list \<Rightarrow> vec3 \<Rightarrow> nat \<Rightarrow> nat \<Rightarrow> nat list \<Rightarrow> event list \<Rightarrow> State
     \<Rightarrow> (State \<times> event list) outcome" where
  "loop_bz prog sz gx gy [] es s = Finished (s, es)"
| "loop_bz prog sz gx gy (bz # bzs) es s =
     (case loop_by prog sz gx [0..<gy] es
             (s\<lparr>m_v3uiGridBlockIdx := vec_set (m_v3uiGridBlockIdx s) 2 bz\<rparr>) of
        Finished (s1, es1) \<Rightarrow> loop_bz prog sz gx gy bzs es1 s1
      | Failed err s1 \<Rightarrow> Failed err s1
      | Unscheduled s1 \<Rightarrow> Unscheduled s1)"

definition grid_loop ::
  "lane_op list \<Rightarrow> vec3 \<Rightarrow> vec3 \<Rightarrow> event list \<Rightarrow> State \<Rightarrow> (State \<times> event list) outcome" where
  "grid_loop prog sz v3uiSizeGridBlocks es s =
     (case v3uiSizeGridBlocks of (gx, gy, gz) \<Rightarrow> loop_bz prog sz gx gy [0..<gz] es s)"

text \<open>\<open>std::to_string\<close> of an unsigned value.\<close>
definition digit_char :: "nat \<Rightarrow> char" where
  "digit_char d = char_of (48 + d)"

function to_string :: "nat \<Rightarrow> string" where
  "to_string n =
     (if n < 10 then [digit_char n] else to_string (n div 10) @ [digit_char (n mod 10)])"
  by pat_completeness auto
termination
  by (relation "measure id") auto

declare to_string.simps [simp del]

text \<open>\<open>std::vector::resize\<close>: cut, or fill up with zero bytes.\<close>
definition resize :: "nat \<Rightarrow> uint8_t list \<Rightarrow> uint8_t list" where
  "resize n xs = take n xs @ replicate (n - length xs) 0"

definition blockSize_message :: "nat \<Rightarrow> nat \<Rightarrow> string" where
  "blockSize_message uiNumKernelsPerBlock uiMaxKernelsPerBlock =
     ''The given blockSize '' @ [CHR 0x27] @ to_string uiNumKernelsPerBlock @ [CHR 0x27]
     @ '' is larger then the supported maximum of '' @ [CHR 0x27]
     @ to_string uiMaxKernelsPerBlock @ [CHR 0x27] @ '' by the fibers accelerator!''"

text \<open>\<open>KernelExecutor::operator()\<close>.\<close>
definition execute :: "event list \<Rightarrow> Kernel \<Rightarrow> WorkSize \<Rightarrow> State \<Rightarrow> (State \<times> event list) outcome" where
  "execute es k workSize s =
     (let s1 = s\<lparr>m_workSize := workSize\<rparr>;
          uiNumKernelsPerBlock = getSizeBlockKernelsLinear (m_workSize s1);
          uiMaxKernelsPerBlock = getSizeBlockKernelsLinearMax
      in if uiNumKernelsPerBlock > uiMaxKernelsPerBlock
         then Failed (RuntimeError (blockSize_message uiNumKernelsPerBlock uiMaxKernelsPerBlock)) s1
         else
           (let s2 = s1\<lparr>m_uiNumKernelsPerBlock := of_nat uiNumKernelsPerBlock\<rparr>;
                v3uiSizeBlockKernels = sizeBlockKernels (m_workSize s2);
                s3 = s2\<lparr>m_vuiExternalSharedMem :=
                         resize (getBlockSharedExternMemSizeBytes k v3uiSizeBlockKernels)
                           (m_vuiExternalSharedMem s2)\<rparr>;
                v3uiSizeGridBlocks = sizeGridBlocks (m_workSize s3)
            in grid_loop (fiberKernel (body k)) v3uiSizeBlockKernels v3uiSizeGridBlocks es s3))"

text \<open>The executor as its constructor leaves it.\<close>
definition initial :: State where
  "initial =
     \<lparr>m_workSize = \<lparr>sizeGridBlocks = (0, 0, 0), sizeBlockKernels = (0, 0, 0)\<rparr>,
      m_mFibersToIndices = Map.empty,
      m_v3uiGridBlockIdx = (0, 0, 0),
      m_uiNumKernelsPerBlock = 0,
      m_mFibersToBarrier = Map.empty,
      m_abarSyncFibers = (\<lambda>_. \<lparr>m_uiNumFibersToWaitFor = 0\<rparr>),
      m_idMasterFiber = None,
      m_vvuiSharedMem = [],
      m_vuiExternalSharedMem = [],
      m_vFibersInBlock = [],
      toSpawn = [],
      running = None,
      recorded = []\<rparr>"

text \<open>The number that a string of decimal digits stands for.\<close>
definition decimal_value :: "string \<Rightarrow> nat" where
  "decimal_value cs = foldl (\<lambda>a c. 10 * a + (of_char c - 48)) 0 cs"

text \<open>
  What holds of a barrier and its tasks after any events: the counter is the number of
  tasks that have not called yet; while there is such a task every other task waits, and
  afterwards every task has been woken or has returned.
\<close>
definition bar_inv :: "nat \<Rightarrow> BarrierRun \<Rightarrow> bool" where
  "bar_inv n r =
     (length (tasks r) = n \<and> n < 2 ^ 64
      \<and> m_uiNumFibersToWaitFor (bar r) = of_nat (count_list (tasks r) NotCalled)
      \<and> (if NotCalled \<in> set (tasks r) then set (tasks r) \<subseteq> {NotCalled, Waiting}
         else set (tasks r) \<subseteq> {Woken, Returned}))"

definition bar_measure :: "BarrierRun \<Rightarrow> nat" where
  "bar_measure r =
     2 * count_list (tasks r) NotCalled + count_list (tasks r) Waiting
     + count_list (tasks r) Woken"

definition all_returned :: "BarrierRun \<Rightarrow> bool" where
  "all_returned r = list_all (\<lambda>st. st = Returned) (tasks r)"

subsection \<open>What holds while the fibers of a block run\<close>

text \<open>
  \<open>syncs\<close> counts the synchronisations in a piece of the code of a fiber, and
  \<open>passed\<close> those that a fiber has behind it. In round \<open>g\<close> of the barriers
  every fiber has \<open>g\<close> synchronisations behind it, apart from the fibers that were
  notified in round \<open>g - 1\<close> and have not run since. The barrier \<open>g mod 2\<close> counts
  the fibers that are still to arrive in this round, the other barrier is at zero.
\<close>

definition syncs :: "lane_op list \<Rightarrow> nat" where
  "syncs ops = count_list ops SyncBlockKernels"

definition passed :: "lane_op list \<Rightarrow> Fiber \<Rightarrow> nat" where
  "passed prog f = syncs (take (f_pc f) prog)"

fun is_suspended :: "fiber_status \<Rightarrow> bool" where
  "is_suspended (Suspended b) = True"
| "is_suspended st = False"

definition suspended_count :: "Fiber list \<Rightarrow> nat" where
  "suspended_count fs = count_list (map (\<lambda>f. is_suspended (f_status f)) fs) True"

definition prog_ok :: "lane_op list \<Rightarrow> bool" where
  "prog_ok prog = (prog \<noteq> [] \<and> prog ! 0 = Register \<and> 0 < syncs prog)"

definition fiber_ok :: "lane_op list \<Rightarrow> nat \<Rightarrow> Fiber \<Rightarrow> bool" where
  "fiber_ok prog g f =
     (case f_status f of
        Ready \<Rightarrow> f_pc f < length prog \<and> passed prog f = g
      | Done \<Rightarrow> f_pc f = length prog \<and> passed prog f = g
      | Suspended b \<Rightarrow>
          f_pc f < length prog \<and> prog ! f_pc f = SyncBlockKernels \<and> 0 < f_pc f
          \<and> passed prog f = g \<and> b = g mod 2
      | Notified b \<Rightarrow>
          f_pc f < length prog \<and> prog ! f_pc f = SyncBlockKernels \<and> 0 < f_pc f
          \<and> Suc (passed prog f) = g \<and> b = passed prog f mod 2)"

definition bars_ok :: "nat \<Rightarrow> nat \<Rightarrow> State \<Rightarrow> bool" where
  "bars_ok n g s =
     (let k = suspended_count (m_vFibersInBlock s) in
      (k = 0 \<or> k < n)
      \<and> m_uiNumFibersToWaitFor (m_abarSyncFibers s (g mod 2))
          = (if k = 0 then 0 else of_nat (n - k))
      \<and> m_uiNumFibersToWaitFor (m_abarSyncFibers s (Suc g mod 2)) = 0)"

definition tables_ok :: "lane_op list \<Rightarrow> State \<Rightarrow> bool" where
  "tables_ok prog s =
     (distinct (map f_id (m_vFibersInBlock s))
      \<and> (\<forall>f \<in> set (m_vFibersInBlock s).
            if f_pc f = 0
            then m_mFibersToIndices s (f_id f) = None \<and> m_mFibersToBarrier s (f_id f) = None
            else m_mFibersToIndices s (f_id f) = Some (f_arg f)
               \<and> m_mFibersToBarrier s (f_id f) = Some (of_nat (passed prog f)))
      \<and> dom (m_mFibersToIndices s) \<subseteq> f_id ` set (m_vFibersInBlock s)
      \<and> dom (m_mFibersToBarrier s) \<subseteq> f_id ` set (m_vFibersInBlock s))"

definition running_ok :: "State \<Rightarrow> bool" where
  "running_ok s =
     (case running s of
        None \<Rightarrow> True
      | Some i \<Rightarrow> i < length (m_vFibersInBlock s) \<and> f_status (m_vFibersInBlock s ! i) = Ready)"

definition block_inv :: "lane_op list \<Rightarrow> nat \<Rightarrow> nat \<Rightarrow> State \<Rightarrow> bool" where
  "block_inv prog n g s =
     (length (m_vFibersInBlock s) + length (toSpawn s) = n \<and> n < 2 ^ 64
      \<and> m_uiNumKernelsPerBlock s = of_nat n
      \<and> (\<forall>f \<in> set (m_vFibersInBlock s). fiber_ok prog g f)
      \<and> (toSpawn s \<noteq> [] \<longrightarrow> g = 0)
      \<and> bars_ok n g s \<and> tables_ok prog s \<and> running_ok s)"

definition core_eq :: "State \<Rightarrow> State \<Rightarrow> bool" where
  "core_eq s t =
     (m_vFibersInBlock t = m_vFibersInBlock s \<and> toSpawn t = toSpawn s
      \<and> m_abarSyncFibers t = m_abarSyncFibers s
      \<and> m_mFibersToIndices t = m_mFibersToIndices s
      \<and> m_mFibersToBarrier t = m_mFibersToBarrier s
      \<and> m_uiNumKernelsPerBlock t = m_uiNumKernelsPerBlock s
      \<and> running t = running s)"

text \<open>What a synchronisation does, up to its suspension point or to its end.\<close>
definition arrive_bar :: "nat \<Rightarrow> size_t \<Rightarrow> State \<Rightarrow> State" where
  "arrive_bar b c s =
     s\<lparr>m_abarSyncFibers := (m_abarSyncFibers s)(b := (m_abarSyncFibers s b)\<lparr>m_uiNumFibersToWaitFor := c\<rparr>)\<rparr>"

definition set_phase :: "fiber_id \<Rightarrow> size_t \<Rightarrow> State \<Rightarrow> State" where
  "set_phase idFiber p s = s\<lparr>m_mFibersToBarrier := (m_mFibersToBarrier s)(idFiber \<mapsto> p)\<rparr>"

text \<open>The fibers of one block under the scheduler events \<open>es\<close>, all of them.\<close>
fun run_events :: "lane_op list \<Rightarrow> event list \<Rightarrow> State \<Rightarrow> State outcome" where
  "run_events prog [] s = Finished s"
| "run_events prog (e # es) s =
     (if enabled prog e s
      then (case step prog e s of
              Inl err \<Rightarrow> Failed err s
            | Inr s1 \<Rightarrow> run_events prog es s1)
      else Unscheduled s)"

text \<open>
  The blocks of a list one after the other. The three loops over the blocks run the blocks
  of the grid in this way, in the order of \<open>indices3\<close> (\<open>grid_loop_blocks\<close> below).
\<close>
fun blocks_loop ::
  "lane_op list \<Rightarrow> vec3 \<Rightarrow> vec3 list \<Rightarrow> event list \<Rightarrow> State \<Rightarrow> (State \<times> event list) outcome" where
  "blocks_loop prog sz [] es s = Finished (s, es)"
| "blocks_loop prog sz (b # bs) es s =
     (case run_fibers prog es (begin_block sz b s) of
        Finished (s1, es1) \<Rightarrow> blocks_loop prog sz bs es1 (end_block s1)
      | Failed err s1 \<Rightarrow> Failed err s1
      | Unscheduled s1 \<Rightarrow> Unscheduled s1)"

text \<open>The outcome of the loops without the index of the block that they leave behind.\<close>
fun drop_idx :: "(State \<times> event list) outcome \<Rightarrow> (State \<times> event list) outcome" where
  "drop_idx (Finished (s, es)) = Finished (s\<lparr>m_v3uiGridBlockIdx := (0, 0, 0)\<rparr>, es)"
| "drop_idx (Failed err s) = Failed err s"
| "drop_idx (Unscheduled s) = Unscheduled s"

text \<open>The executor between two blocks.\<close>
definition idle :: "State \<Rightarrow> bool" where
  "idle s =
     (m_vFibersInBlock s = [] \<and> m_mFibersToIndices s = Map.empty
      \<and> m_mFibersToBarrier s = Map.empty
      \<and> m_uiNumFibersToWaitFor (m_abarSyncFibers s 0) = 0
      \<and> m_uiNumFibersToWaitFor (m_abarSyncFibers s 1) = 0)"

text \<open>
  The \<open>static_assert\<close> of \<open>allocBlockSharedMem<T, UiNumElements>\<close>. It is checked when
  the template is instantiated, that is, when the kernel is compiled.
\<close>
definition allocBlockSharedMem_static_assert :: "nat \<Rightarrow> error option" where
  "allocBlockSharedMem_static_assert UiNumElements =
     (if UiNumElements > 0 then None
      else Some (StaticAssertFailed
        ''The number of elements to allocate in block shared memory must not be zero!''))"

text \<open>The instantiations that the body of a kernel needs, in the order of the body.\<close>
fun instantiate :: "kernel_op list \<Rightarrow> error option" where
  "instantiate [] = None"
| "instantiate (AllocBlockSharedMem sz n # ops) =
     (case allocBlockSharedMem_static_assert n of
        Some e \<Rightarrow> Some e
      | None \<Rightarrow> instantiate ops)"
| "instantiate (CallSyncBlockKernels # ops) = instantiate ops"
| "instantiate (RecordIdxBlockKernel # ops) = instantiate ops"
| "instantiate (RecordBlockSharedExternMem # ops) = instantiate ops"

text \<open>A program is compiled before it runs; one that does not compile never runs.\<close>
definition compile_and_execute ::
  "event list \<Rightarrow> Kernel \<Rightarrow> WorkSize \<Rightarrow> State \<Rightarrow> (State \<times> event list) outcome" where
  "compile_and_execute es k workSize s =
     (case instantiate (body k) of
        Some e \<Rightarrow> Failed e s
      | None \<Rightarrow> execute es k workSize s)"

text \<open>What an operation of a kernel writes to the output.\<close>
definition op_record :: "State \<Rightarrow> Fiber \<Rightarrow> lane_op \<Rightarrow> entry list" where
  "op_record s f op =
     (case op of
        GetIdxBlockKernel \<Rightarrow> [RecIdx (m_v3uiGridBlockIdx s) (f_arg f)]
      | ReturnBack sz m \<Rightarrow>
          [RecAlloc (m_v3uiGridBlockIdx s) (sz * m) (length (m_vvuiSharedMem s) - 1)
             (length (last (m_vvuiSharedMem s)))]
      | GetBlockSharedExternMem \<Rightarrow>
          [RecExtern (m_v3uiGridBlockIdx s) (length (m_vuiExternalSharedMem s))]
      | _ \<Rightarrow> [])"

text \<open>A fiber after an operation.\<close>
definition adv :: "lane_op list \<Rightarrow> Fiber \<Rightarrow> Fiber" where
  "adv prog f =
     f\<lparr>f_pc := Suc (f_pc f), f_status := (if length prog \<le> Suc (f_pc f) then Done else Ready)\<rparr>"

definition notified :: "nat \<Rightarrow> Fiber \<Rightarrow> Fiber" where
  "notified b f = (if f_status f = Suspended b then f\<lparr>f_status := Notified b\<rparr> else f)"

text \<open>The work that is left in a block: it gets less with every event.\<close>
definition fiber_weight :: "lane_op list \<Rightarrow> Fiber \<Rightarrow> nat" where
  "fiber_weight prog f = 2 * (length prog - f_pc f) + (if f_status f = Ready then 1 else 0)"

definition block_measure :: "lane_op list \<Rightarrow> State \<Rightarrow> nat" where
  "block_measure prog s =
     sum_list (map (fiber_weight prog) (m_vFibersInBlock s))
     + length (toSpawn s) * (2 * length prog + 2)"

fun is_RecIdx :: "entry \<Rightarrow> bool" where
  "is_RecIdx (RecIdx b v) = True"
| "is_RecIdx e = False"

text \<open>
  The entries with an index that the fibers of a block have written so far: every fiber
  one for each \<open>GetIdxBlockKernel\<close> it has behind it.
\<close>
definition idx_of_fiber :: "lane_op list \<Rightarrow> vec3 \<Rightarrow> Fiber \<Rightarrow> entry multiset" where
  "idx_of_fiber prog b f =
     replicate_mset (count_list (take (f_pc f) prog) GetIdxBlockKernel) (RecIdx b (f_arg f))"

definition idx_recorded :: "lane_op list \<Rightarrow> vec3 \<Rightarrow> Fiber list \<Rightarrow> entry multiset" where
  "idx_recorded prog b fs = sum_list (map (idx_of_fiber prog b) fs)"

text \<open>What a kernel that writes its index once leaves in the output, block by block.\<close>
definition expected_output :: "vec3 \<Rightarrow> vec3 list \<Rightarrow> entry list" where
  "expected_output sz bs = concat (map (\<lambda>b. map (RecIdx b) (indices3 sz)) bs)"


section \<open>Properties\<close>

subsection \<open>The message of the configuration error\<close>

lemma of_char_digit_char: "d < 10 \<Longrightarrow> (of_char (digit_char d) :: nat) = 48 + d"
  by (simp add: digit_char_def)

lemma decimal_value_to_string: "decimal_value (to_string n) = n"
proof (induction n rule: to_string.induct)
  case (1 n)
  show ?case
  proof (cases "n < 10")
    case True
    then show ?thesis
      by (subst to_string.simps) (simp add: decimal_value_def of_char_digit_char)
  next
    case False
    with 1 have "decimal_value (to_string (n div 10)) = n div 10" by simp
    with False show ?thesis
      by (subst to_string.simps) (simp add: decimal_value_def of_char_digit_char)
  qed
qed

lemma to_string_1024: "to_string 1024 = ''1024''"
  by code_simp

lemma to_string_1025: "to_string 1025 = ''1025''"
  by code_simp

subsection \<open>Errors of the fibers are never the configuration error\<close>

lemma step_error: "step prog e s = Inl err \<Longrightarrow> err = AssertionFailed \<or> err = EmptyVectorBack"
  by (auto simp: step_def resume_def exec_op_def syncBlockKernels_arrive_def
      syncBlockKernels_leave_def return_back_def getIdxBlockKernel_def Let_def
      split: event.splits fiber_status.splits lane_op.splits option.splits sum.splits
      if_splits prod.splits)

lemma run_fibers_error:
  "run_fibers prog es s = Failed err s1 \<Longrightarrow> err = AssertionFailed \<or> err = EmptyVectorBack"
proof (induction es arbitrary: s)
  case Nil
  then show ?case by (simp split: if_splits)
next
  case (Cons e es)
  then show ?case
    by (auto split: if_splits sum.splits dest: step_error)
qed

lemma blocks_loop_error:
  "blocks_loop prog sz bs es s = Failed err s1 \<Longrightarrow> err = AssertionFailed \<or> err = EmptyVectorBack"
proof (induction bs arbitrary: es s)
  case Nil
  then show ?case by simp
next
  case (Cons b bs)
  then show ?case
    by (auto split: outcome.splits prod.splits dest: run_fibers_error)
qed

subsection \<open>The loops over the blocks run the blocks of the grid one after the other\<close>

lemma step_idx: "step prog e s = Inr s' \<Longrightarrow> m_v3uiGridBlockIdx s' = m_v3uiGridBlockIdx s"
  by (auto simp: step_def spawn_def resume_def exec_op_def Let_def
      syncBlockKernels_arrive_def syncBlockKernels_leave_def wait_arrive_def
      emplace_back_if_master_def record_entry_def advance_def suspend_def notify_all_def
      register_fiber_def set_fiber_def return_back_def getIdxBlockKernel_def
      split: event.splits list.splits fiber_status.splits lane_op.splits sum.splits
        option.splits if_splits prod.splits)

lemma run_fibers_idx:
  "run_fibers prog es s = Finished (s', rest) \<Longrightarrow> m_v3uiGridBlockIdx s' = m_v3uiGridBlockIdx s"
proof (induction es arbitrary: s)
  case Nil
  then show ?case by (simp split: if_splits)
next
  case (Cons e es)
  show ?case
  proof (cases "all_joined s")
    case True
    with Cons.prems show ?thesis by simp
  next
    case False
    with Cons.prems obtain s2 where "step prog e s = Inr s2"
      "run_fibers prog es s2 = Finished (s', rest)"
      by (auto split: if_splits sum.splits)
    with Cons.IH [of s2] step_idx [of prog e s s2] show ?thesis by simp
  qed
qed

lemma vec_set_0: "snd v = (y, z) \<Longrightarrow> vec_set v 0 x = (x, y, z)"
  by (cases v) (simp add: vec_set_def)

lemma vec_set_1: "snd (snd (vec_set v 1 y)) = snd (snd v) \<and> fst (snd (vec_set v 1 y)) = y"
  by (cases v) (simp add: vec_set_def)

lemma vec_set_2: "snd (snd (vec_set v 2 z)) = z"
  by (cases v) (simp add: vec_set_def)

lemma loop_bx_blocks:
  "snd (m_v3uiGridBlockIdx s) = (y, z) \<Longrightarrow>
   loop_bx prog sz xs es s = blocks_loop prog sz (map (\<lambda>x. (x, y, z)) xs) es s"
proof (induction xs arbitrary: es s)
  case Nil
  then show ?case by simp
next
  case (Cons x xs)
  note b = vec_set_0 [OF Cons.prems, of x]
  show ?case
  proof (cases "run_fibers prog es (begin_block sz (x, y, z) s)")
    case (Finished p)
    obtain s1 es1 where p: "p = (s1, es1)" by (cases p)
    from run_fibers_idx [OF Finished [unfolded p]]
    have "snd (m_v3uiGridBlockIdx (end_block s1)) = (y, z)"
      by (simp add: end_block_def begin_block_def)
    from Cons.IH [OF this] Finished p b show ?thesis by simp
  next
    case (Failed err s1)
    with b show ?thesis by simp
  next
    case (Unscheduled s1)
    with b show ?thesis by simp
  qed
qed

lemma loop_bx_idx:
  "loop_bx prog sz xs es s = Finished (s', rest) \<Longrightarrow>
   snd (m_v3uiGridBlockIdx s') = snd (m_v3uiGridBlockIdx s)"
proof (induction xs arbitrary: es s)
  case Nil
  then show ?case by simp
next
  case (Cons x xs)
  let ?b = "vec_set (m_v3uiGridBlockIdx s) 0 x"
  from Cons.prems obtain s1 es1 where run: "run_fibers prog es (begin_block sz ?b s) = Finished (s1, es1)"
    and loop: "loop_bx prog sz xs es1 (end_block s1) = Finished (s', rest)"
    by (auto split: outcome.splits)
  have "snd ?b = snd (m_v3uiGridBlockIdx s)"
    by (cases "m_v3uiGridBlockIdx s") (simp add: vec_set_def)
  with run_fibers_idx [OF run] Cons.IH [OF loop] show ?case
    by (simp add: end_block_def begin_block_def)
qed

lemma blocks_loop_append:
  "blocks_loop prog sz (bs1 @ bs2) es s =
     (case blocks_loop prog sz bs1 es s of
        Finished (s1, es1) \<Rightarrow> blocks_loop prog sz bs2 es1 s1
      | Failed err s1 \<Rightarrow> Failed err s1
      | Unscheduled s1 \<Rightarrow> Unscheduled s1)"
  by (induction bs1 arbitrary: es s) (simp_all split: outcome.splits)

lemma blocks_loop_drop_idx:
  "drop_idx (blocks_loop prog sz bs es (s\<lparr>m_v3uiGridBlockIdx := v\<rparr>))
     = drop_idx (blocks_loop prog sz bs es s)"
  by (cases bs) (simp_all add: begin_block_def)

lemma blocks_loop_drop_idx_eq:
  assumes "s1\<lparr>m_v3uiGridBlockIdx := (0, 0, 0)\<rparr> = s2\<lparr>m_v3uiGridBlockIdx := (0, 0, 0)\<rparr>"
  shows "drop_idx (blocks_loop prog sz bs es s1) = drop_idx (blocks_loop prog sz bs es s2)"
proof -
  have "drop_idx (blocks_loop prog sz bs es s1)
      = drop_idx (blocks_loop prog sz bs es (s1\<lparr>m_v3uiGridBlockIdx := (0, 0, 0)\<rparr>))"
    by (simp only: blocks_loop_drop_idx)
  also have "\<dots> = drop_idx (blocks_loop prog sz bs es (s2\<lparr>m_v3uiGridBlockIdx := (0, 0, 0)\<rparr>))"
    by (simp only: assms)
  also have "\<dots> = drop_idx (blocks_loop prog sz bs es s2)"
    by (simp only: blocks_loop_drop_idx)
  finally show ?thesis .
qed

lemma drop_idx_then:
  assumes "drop_idx o1 = drop_idx o2"
    and "\<And>s1 s2 es. s1\<lparr>m_v3uiGridBlockIdx := (0, 0, 0)\<rparr> = s2\<lparr>m_v3uiGridBlockIdx := (0, 0, 0)\<rparr>
          \<Longrightarrow> o1 = Finished (s1, es) \<Longrightarrow> o2 = Finished (s2, es)
          \<Longrightarrow> drop_idx (f s1 es) = drop_idx (g s2 es)"
  shows "drop_idx (case o1 of Finished (s1, es1) \<Rightarrow> f s1 es1
                   | Failed err s1 \<Rightarrow> Failed err s1 | Unscheduled s1 \<Rightarrow> Unscheduled s1)
       = drop_idx (case o2 of Finished (s1, es1) \<Rightarrow> g s1 es1
                   | Failed err s1 \<Rightarrow> Failed err s1 | Unscheduled s1 \<Rightarrow> Unscheduled s1)"
proof (cases o1)
  case (Finished p)
  obtain s1 es1 where p: "p = (s1, es1)" by (cases p)
  from assms(1) Finished p obtain s2 where o2: "o2 = Finished (s2, es1)"
    and eq: "s1\<lparr>m_v3uiGridBlockIdx := (0, 0, 0)\<rparr> = s2\<lparr>m_v3uiGridBlockIdx := (0, 0, 0)\<rparr>"
    by (cases o2) auto
  from assms(2) [OF eq Finished [unfolded p] o2] Finished p o2 show ?thesis by simp
next
  case (Failed err s1)
  with assms(1) have "o2 = Failed err s1" by (cases o2) auto
  with Failed show ?thesis by simp
next
  case (Unscheduled s1)
  with assms(1) have "o2 = Unscheduled s1" by (cases o2) auto
  with Unscheduled show ?thesis by simp
qed

lemma loop_by_blocks:
  "snd (snd (m_v3uiGridBlockIdx s)) = z \<Longrightarrow>
   drop_idx (loop_by prog sz gx ys es s)
     = drop_idx (blocks_loop prog sz (concat (map (\<lambda>y. map (\<lambda>x. (x, y, z)) [0..<gx]) ys)) es s)"
proof (induction ys arbitrary: es s)
  case Nil
  then show ?case by simp
next
  case (Cons y ys)
  let ?sy = "s\<lparr>m_v3uiGridBlockIdx := vec_set (m_v3uiGridBlockIdx s) 1 y\<rparr>"
  let ?row = "map (\<lambda>x. (x, y, z)) [0..<gx]"
  let ?rest = "concat (map (\<lambda>y. map (\<lambda>x. (x, y, z)) [0..<gx]) ys)"
  from Cons.prems vec_set_1 [of "m_v3uiGridBlockIdx s" y]
  have sy: "snd (m_v3uiGridBlockIdx ?sy) = (y, z)"
    by (simp add: prod_eq_iff)
  have row: "loop_bx prog sz [0..<gx] es ?sy = blocks_loop prog sz ?row es ?sy"
    by (rule loop_bx_blocks [OF sy])
  have first: "drop_idx (loop_bx prog sz [0..<gx] es ?sy) = drop_idx (blocks_loop prog sz ?row es s)"
    unfolding row by (rule blocks_loop_drop_idx)
  have "drop_idx (case loop_bx prog sz [0..<gx] es ?sy of
            Finished (s1, es1) \<Rightarrow> loop_by prog sz gx ys es1 s1
          | Failed err s1 \<Rightarrow> Failed err s1 | Unscheduled s1 \<Rightarrow> Unscheduled s1)
      = drop_idx (case blocks_loop prog sz ?row es s of
            Finished (s1, es1) \<Rightarrow> blocks_loop prog sz ?rest es1 s1
          | Failed err s1 \<Rightarrow> Failed err s1 | Unscheduled s1 \<Rightarrow> Unscheduled s1)"
  proof (rule drop_idx_then [OF first])
    fix s1 s2 :: State and es1 :: "event list"
    assume eq: "s1\<lparr>m_v3uiGridBlockIdx := (0, 0, 0)\<rparr> = s2\<lparr>m_v3uiGridBlockIdx := (0, 0, 0)\<rparr>"
      and fin: "loop_bx prog sz [0..<gx] es ?sy = Finished (s1, es1)"
    from loop_bx_idx [OF fin] sy have "snd (snd (m_v3uiGridBlockIdx s1)) = z" by simp
    from Cons.IH [OF this] blocks_loop_drop_idx_eq [OF eq]
    show "drop_idx (loop_by prog sz gx ys es1 s1) = drop_idx (blocks_loop prog sz ?rest es1 s2)"
      by simp
  qed
  then show ?case by (simp add: blocks_loop_append)
qed

lemma loop_bz_blocks:
  "drop_idx (loop_bz prog sz gx gy zs es s)
     = drop_idx (blocks_loop prog sz
         (concat (map (\<lambda>z. concat (map (\<lambda>y. map (\<lambda>x. (x, y, z)) [0..<gx]) [0..<gy])) zs)) es s)"
proof (induction zs arbitrary: es s)
  case Nil
  then show ?case by simp
next
  case (Cons z zs)
  let ?sz = "s\<lparr>m_v3uiGridBlockIdx := vec_set (m_v3uiGridBlockIdx s) 2 z\<rparr>"
  let ?plane = "concat (map (\<lambda>y. map (\<lambda>x. (x, y, z)) [0..<gx]) [0..<gy])"
  let ?rest = "concat (map (\<lambda>z. concat (map (\<lambda>y. map (\<lambda>x. (x, y, z)) [0..<gx]) [0..<gy])) zs)"
  have "snd (snd (m_v3uiGridBlockIdx ?sz)) = z" by (simp add: vec_set_2)
  from loop_by_blocks [OF this]
  have "drop_idx (loop_by prog sz gx [0..<gy] es ?sz) = drop_idx (blocks_loop prog sz ?plane es ?sz)" .
  then have first: "drop_idx (loop_by prog sz gx [0..<gy] es ?sz)
      = drop_idx (blocks_loop prog sz ?plane es s)"
    by (simp only: blocks_loop_drop_idx)
  have "drop_idx (case loop_by prog sz gx [0..<gy] es ?sz of
            Finished (s1, es1) \<Rightarrow> loop_bz prog sz gx gy zs es1 s1
          | Failed err s1 \<Rightarrow> Failed err s1 | Unscheduled s1 \<Rightarrow> Unscheduled s1)
      = drop_idx (case blocks_loop prog sz ?plane es s of
            Finished (s1, es1) \<Rightarrow> blocks_loop prog sz ?rest es1 s1
          | Failed err s1 \<Rightarrow> Failed err s1 | Unscheduled s1 \<Rightarrow> Unscheduled s1)"
  proof (rule drop_idx_then [OF first])
    fix s1 s2 :: State and es1 :: "event list"
    assume eq: "s1\<lparr>m_v3uiGridBlockIdx := (0, 0, 0)\<rparr> = s2\<lparr>m_v3uiGridBlockIdx := (0, 0, 0)\<rparr>"
    from Cons.IH [of es1 s1] blocks_loop_drop_idx_eq [OF eq]
    show "drop_idx (loop_bz prog sz gx gy zs es1 s1) = drop_idx (blocks_loop prog sz ?rest es1 s2)"
      by simp
  qed
  then show ?case by (simp add: blocks_loop_append)
qed

text \<open>
  Up to the index of the block that is left behind when they return, the three loops over
  the blocks run the blocks of the grid in the order of \<open>indices3\<close>.
\<close>
lemma grid_loop_blocks:
  "drop_idx (grid_loop prog sz gsz es s) = drop_idx (blocks_loop prog sz (indices3 gsz) es s)"
  by (cases gsz) (simp add: grid_loop_def indices3_def loop_bz_blocks)

text \<open>
  The index of the block is assigned to component by component: with two rows of no block
  the loops leave the row they entered last.
\<close>
lemma grid_loop_leaves_index:
  "grid_loop prog sz (0, 2, 1) es initial
     = Finished (initial\<lparr>m_v3uiGridBlockIdx := (0, 1, 0)\<rparr>, es)"
  by (simp add: grid_loop_def vec_set_def initial_def upt_rec)

lemma grid_loop_Failed:
  "grid_loop prog sz gsz es s = Failed err s1
     \<longleftrightarrow> blocks_loop prog sz (indices3 gsz) es s = Failed err s1"
  using grid_loop_blocks [of prog sz gsz es s]
  by (cases "grid_loop prog sz gsz es s"; cases "blocks_loop prog sz (indices3 gsz) es s") auto

lemma grid_loop_Unscheduled:
  "grid_loop prog sz gsz es s = Unscheduled s1
     \<longleftrightarrow> blocks_loop prog sz (indices3 gsz) es s = Unscheduled s1"
  using grid_loop_blocks [of prog sz gsz es s]
  by (cases "grid_loop prog sz gsz es s"; cases "blocks_loop prog sz (indices3 gsz) es s") auto

lemma grid_loop_Finished:
  assumes "grid_loop prog sz gsz es s = Finished (s', rest)"
  shows "\<exists>t. blocks_loop prog sz (indices3 gsz) es s = Finished (t, rest)
           \<and> s' = t\<lparr>m_v3uiGridBlockIdx := m_v3uiGridBlockIdx s'\<rparr>"
proof -
  from grid_loop_blocks [of prog sz gsz es s] assms obtain t where
    t: "blocks_loop prog sz (indices3 gsz) es s = Finished (t, rest)"
    and eq: "s'\<lparr>m_v3uiGridBlockIdx := (0, 0, 0)\<rparr> = t\<lparr>m_v3uiGridBlockIdx := (0, 0, 0)\<rparr>"
    by (cases "blocks_loop prog sz (indices3 gsz) es s") auto
  from eq have "s'\<lparr>m_v3uiGridBlockIdx := (0, 0, 0)\<rparr>\<lparr>m_v3uiGridBlockIdx := m_v3uiGridBlockIdx s'\<rparr>
      = t\<lparr>m_v3uiGridBlockIdx := (0, 0, 0)\<rparr>\<lparr>m_v3uiGridBlockIdx := m_v3uiGridBlockIdx s'\<rparr>"
    by (simp only:)
  then have "s' = t\<lparr>m_v3uiGridBlockIdx := m_v3uiGridBlockIdx s'\<rparr>" by simp
  with t show ?thesis by blast
qed

lemma blocks_loop_Finished:
  assumes "blocks_loop prog sz (indices3 gsz) es s = Finished (t, rest)"
  shows "\<exists>s'. grid_loop prog sz gsz es s = Finished (s', rest)"
  using grid_loop_blocks [of prog sz gsz es s] assms
  by (cases "grid_loop prog sz gsz es s") auto

lemma grid_loop_error:
  "grid_loop prog sz gsz es s = Failed err s1 \<Longrightarrow> err = AssertionFailed \<or> err = EmptyVectorBack"
  unfolding grid_loop_Failed by (rule blocks_loop_error)

subsection \<open>The check of the block size\<close>

text \<open>
  C3. When the linearized number of kernels per block of the work size is larger than
  the maximum of the accelerator, \<open>execute\<close> fails with the runtime error whose message
  holds the decimal numerals of the requested number and of the maximum, whatever the
  scheduler would do; the state it leaves differs from the one it found in the stored work
  size only: no fiber has been created and no kernel has written anything.
\<close>
theorem execute_rejects_oversized_block:
  assumes "getSizeBlockKernelsLinearMax < getSizeBlockKernelsLinear workSize"
  shows "execute es k workSize s =
           Failed (RuntimeError
             (''The given blockSize '' @ [CHR 0x27] @ to_string (getSizeBlockKernelsLinear workSize)
              @ [CHR 0x27] @ '' is larger then the supported maximum of '' @ [CHR 0x27]
              @ to_string getSizeBlockKernelsLinearMax @ [CHR 0x27]
              @ '' by the fibers accelerator!''))
             (s\<lparr>m_workSize := workSize\<rparr>)
         \<and> decimal_value (to_string (getSizeBlockKernelsLinear workSize))
             = getSizeBlockKernelsLinear workSize
         \<and> decimal_value (to_string getSizeBlockKernelsLinearMax) = getSizeBlockKernelsLinearMax
         \<and> m_vFibersInBlock (s\<lparr>m_workSize := workSize\<rparr>) = m_vFibersInBlock s
         \<and> recorded (s\<lparr>m_workSize := workSize\<rparr>) = recorded s"
  using assms by (simp add: execute_def blockSize_message_def decimal_value_to_string)

theorem execute_rejects_oversized_block_witness:
  "getSizeBlockKernelsLinearMax
     < getSizeBlockKernelsLinear \<lparr>sizeGridBlocks = (1, 1, 1), sizeBlockKernels = (1025, 1, 1)\<rparr>
   \<and> (\<exists>st. execute [] \<lparr>body = [RecordIdxBlockKernel], getBlockSharedExternMemSizeBytes = (\<lambda>v. 0)\<rparr>
        \<lparr>sizeGridBlocks = (1, 1, 1), sizeBlockKernels = (1025, 1, 1)\<rparr> initial
        = Failed (RuntimeError (''The given blockSize '' @ [CHR 0x27] @ ''1025''
              @ [CHR 0x27] @ '' is larger then the supported maximum of '' @ [CHR 0x27]
              @ ''1024'' @ [CHR 0x27] @ '' by the fibers accelerator!'')) st
        \<and> m_vFibersInBlock st = [] \<and> recorded st = [])"
proof -
  let ?ws = "\<lparr>sizeGridBlocks = (1, 1, 1), sizeBlockKernels = (1025, 1, 1)\<rparr>"
  let ?k = "\<lparr>body = [RecordIdxBlockKernel], getBlockSharedExternMemSizeBytes = (\<lambda>v. 0)\<rparr>"
  have l: "getSizeBlockKernelsLinear ?ws = 1025"
    by (simp add: getSizeBlockKernelsLinear_def prod3_def)
  have m: "getSizeBlockKernelsLinearMax = 1024"
    by (simp add: getSizeBlockKernelsLinearMax_def)
  have h: "getSizeBlockKernelsLinearMax < getSizeBlockKernelsLinear ?ws"
    unfolding l m by simp
  have i: "m_vFibersInBlock (initial\<lparr>m_workSize := ?ws\<rparr>) = [] \<and> recorded (initial\<lparr>m_workSize := ?ws\<rparr>) = []"
    by (simp add: initial_def)
  from execute_rejects_oversized_block [OF h, of "[]" ?k initial]
  have "execute [] ?k ?ws initial = Failed (RuntimeError (''The given blockSize '' @ [CHR 0x27] @ ''1025''
              @ [CHR 0x27] @ '' is larger then the supported maximum of '' @ [CHR 0x27]
              @ ''1024'' @ [CHR 0x27] @ '' by the fibers accelerator!'')) (initial\<lparr>m_workSize := ?ws\<rparr>)"
    unfolding l m to_string_1025 to_string_1024 by blast
  with h i show ?thesis by blast
qed

text \<open>
  C10. The maximum of kernels per block is the constant 1024, the maximum per dimension
  is 1024 in each of the three dimensions, and \<open>execute\<close> fails with the runtime error
  exactly when the product of the three extents of the block is larger than 1024; so it
  rejects the block whose extents are the three maxima per dimension.
\<close>
theorem block_size_ceiling:
  "getSizeBlockKernelsLinearMax = 1024
   \<and> getSizeBlockKernelsMax = (1024, 1024, 1024)
   \<and> (\<forall>es k workSize s.
        (\<exists>msg s1. execute es k workSize s = Failed (RuntimeError msg) s1)
        = (1024 < prod3 (sizeBlockKernels workSize)))
   \<and> (\<forall>es k workSize s. sizeBlockKernels workSize = getSizeBlockKernelsMax \<longrightarrow>
        (\<exists>msg. execute es k workSize s = Failed (RuntimeError msg) (s\<lparr>m_workSize := workSize\<rparr>)))"
proof -
  have a: "getSizeBlockKernelsLinearMax = 1024"
    by (simp add: getSizeBlockKernelsLinearMax_def)
  have b: "getSizeBlockKernelsMax = (1024, 1024, 1024)"
    by (simp add: getSizeBlockKernelsMax_def a)
  have c: "(\<exists>msg s1. execute es k workSize s = Failed (RuntimeError msg) s1)
        = (1024 < prod3 (sizeBlockKernels workSize))" for es k workSize s
  proof (cases "1024 < prod3 (sizeBlockKernels workSize)")
    case True
    then show ?thesis by (simp add: execute_def a getSizeBlockKernelsLinear_def)
  next
    case False
    then have "execute es k workSize s \<noteq> Failed (RuntimeError msg) s1" for msg s1
      by (auto simp: execute_def a getSizeBlockKernelsLinear_def Let_def dest: grid_loop_error)
    with False show ?thesis by simp
  qed
  have d: "sizeBlockKernels workSize = getSizeBlockKernelsMax \<Longrightarrow>
        (\<exists>msg. execute es k workSize s = Failed (RuntimeError msg) (s\<lparr>m_workSize := workSize\<rparr>))"
    for es k workSize s
    by (simp add: execute_def a b getSizeBlockKernelsLinear_def prod3_def)
  from a b c d show ?thesis by blast
qed

theorem block_size_ceiling_witness:
  "sizeBlockKernels \<lparr>sizeGridBlocks = (1, 1, 1), sizeBlockKernels = (1024, 1024, 1024)\<rparr> = getSizeBlockKernelsMax \<and>
   (\<exists>msg s1. execute [] \<lparr>body = [], getBlockSharedExternMemSizeBytes = (\<lambda>v. 0)\<rparr>
      \<lparr>sizeGridBlocks = (1, 1, 1), sizeBlockKernels = (1024, 1024, 1024)\<rparr> initial
      = Failed (RuntimeError msg) s1)"
proof -
  let ?ws = "\<lparr>sizeGridBlocks = (1, 1, 1), sizeBlockKernels = (1024, 1024, 1024)\<rparr>"
  from block_size_ceiling have m: "getSizeBlockKernelsMax = (1024, 1024, 1024)" by blast
  have h: "sizeBlockKernels ?ws = getSizeBlockKernelsMax"
    unfolding m by simp
  from block_size_ceiling
  have "\<forall>es k workSize s. sizeBlockKernels workSize = getSizeBlockKernelsMax \<longrightarrow>
        (\<exists>msg. execute es k workSize s = Failed (RuntimeError msg) (s\<lparr>m_workSize := workSize\<rparr>))"
    by blast
  with h have "\<exists>msg. execute [] \<lparr>body = [], getBlockSharedExternMemSizeBytes = (\<lambda>v. 0)\<rparr> ?ws initial
      = Failed (RuntimeError msg) (initial\<lparr>m_workSize := ?ws\<rparr>)"
    by blast
  with h show ?thesis by blast
qed

subsection \<open>The barrier on its own\<close>

lemma count_list_update:
  "i < length xs \<Longrightarrow>
   count_list (xs[i := v]) y + (if xs ! i = y then 1 else 0)
     = count_list xs y + (if v = y then 1 else 0)"
proof (induction xs arbitrary: i)
  case Nil
  then show ?case by simp
next
  case (Cons x xs)
  show ?case
  proof (cases i)
    case 0
    then show ?thesis by simp
  next
    case (Suc j)
    with Cons.prems have "j < length xs" by simp
    from Cons.IH [OF this] Suc show ?thesis by (auto split: if_splits)
  qed
qed

lemma count_list_pos: "count_list xs y > 0 \<longleftrightarrow> y \<in> set xs"
  by (induction xs) auto

lemma count_list_le_length: "count_list xs y \<le> length xs"
  by (induction xs) auto

lemma count_list_replicate: "count_list (replicate n x) y = (if x = y then n else 0)"
  by (induction n) auto

lemma count_list_one_unique:
  "count_list xs y = 1 \<Longrightarrow> i < length xs \<Longrightarrow> xs ! i = y \<Longrightarrow> j < length xs \<Longrightarrow> xs ! j = y \<Longrightarrow> i = j"
proof (induction xs arbitrary: i j)
  case Nil
  then show ?case by simp
next
  case (Cons x xs)
  show ?case
  proof (cases "x = y")
    case True
    with Cons.prems have z: "count_list xs y = 0" by simp
    then have "y \<notin> set xs" using count_list_pos [of xs y] by simp
    with Cons.prems show ?thesis
      by (cases i; cases j) auto
  next
    case False
    with Cons.prems Cons.IH show ?thesis
      by (cases i; cases j) auto
  qed
qed

lemma notify_counts:
  "count_list (notify_all_tasks ts) NotCalled = count_list ts NotCalled"
  "count_list (notify_all_tasks ts) Waiting = 0"
  "count_list (notify_all_tasks ts) Woken = count_list ts Waiting + count_list ts Woken"
  "count_list (notify_all_tasks ts) Returned = count_list ts Returned"
  by (induction ts) (auto simp: notify_all_tasks_def)

lemma length_notify_all_tasks [simp]: "length (notify_all_tasks ts) = length ts"
  by (simp add: notify_all_tasks_def)

lemma of_nat_size_t_zero: "k < 2 ^ 64 \<Longrightarrow> ((of_nat k :: size_t) = 0) = (k = 0)"
  by (auto simp: word_of_nat_eq_0_iff dest: dvd_imp_le)

lemma of_nat_size_t_pred: "0 < k \<Longrightarrow> (of_nat k :: size_t) - 1 = of_nat (k - 1)"
  by (cases k) simp_all

text \<open>The call of a task that has not called yet.\<close>
lemma bar_step_Call:
  assumes inv: "bar_inv n r" and en: "bar_enabled (Call t) r"
  shows "bar_inv n (bar_step (Call t) r)"
    and "bar_measure (bar_step (Call t) r) < bar_measure r"
    and "count_list (tasks r) NotCalled = 1 \<Longrightarrow>
           m_uiNumFibersToWaitFor (bar (bar_step (Call t) r)) = 0
           \<and> tasks (bar_step (Call t) r) = (notify_all_tasks (tasks r))[t := Returned]"
    and "count_list (tasks r) NotCalled \<noteq> 1 \<Longrightarrow>
           m_uiNumFibersToWaitFor (bar (bar_step (Call t) r)) \<noteq> 0
           \<and> tasks (bar_step (Call t) r) = (tasks r)[t := Waiting]"
proof -
  let ?k = "count_list (tasks r) NotCalled"
  from en have t: "t < length (tasks r)" "tasks r ! t = NotCalled"
    by (simp_all add: bar_enabled_def)
  then have mem: "NotCalled \<in> set (tasks r)" by (metis nth_mem)
  then have kpos: "0 < ?k" by (simp add: count_list_pos)
  from inv mem have sub: "set (tasks r) \<subseteq> {NotCalled, Waiting}"
    and cnt: "m_uiNumFibersToWaitFor (bar r) = of_nat ?k"
    and len: "length (tasks r) = n" "n < 2 ^ 64"
    by (simp_all add: bar_inv_def)
  have kle: "?k - 1 < 2 ^ 64"
    using count_list_le_length [of "tasks r" NotCalled] len by simp
  have dec: "m_uiNumFibersToWaitFor (bar r) - 1 = of_nat (?k - 1)"
    unfolding cnt by (rule of_nat_size_t_pred [OF kpos])
  have zero: "(m_uiNumFibersToWaitFor (bar r) - 1 = 0) = (?k = 1)"
    unfolding dec of_nat_size_t_zero [OF kle] using kpos by auto
  have step_eq: "bar_step (Call t) r =
      (if ?k = 1
       then \<lparr>bar = (bar r)\<lparr>m_uiNumFibersToWaitFor := 0\<rparr>,
             tasks = (notify_all_tasks (tasks r))[t := Returned]\<rparr>
       else \<lparr>bar = (bar r)\<lparr>m_uiNumFibersToWaitFor := of_nat (?k - 1)\<rparr>,
             tasks = (tasks r)[t := Waiting]\<rparr>)"
    using zero dec by (simp add: bar_step_def wait_arrive_def del: of_nat_diff)
  have nz: "?k \<noteq> 1 \<Longrightarrow> (of_nat (?k - 1) :: size_t) \<noteq> 0"
    using zero dec by simp
  show last: "?k = 1 \<Longrightarrow>
           m_uiNumFibersToWaitFor (bar (bar_step (Call t) r)) = 0
           \<and> tasks (bar_step (Call t) r) = (notify_all_tasks (tasks r))[t := Returned]"
    by (simp add: step_eq)
  show notlast: "?k \<noteq> 1 \<Longrightarrow>
           m_uiNumFibersToWaitFor (bar (bar_step (Call t) r)) \<noteq> 0
           \<and> tasks (bar_step (Call t) r) = (tasks r)[t := Waiting]"
    using nz by (simp add: step_eq del: of_nat_diff)
  have cw: "count_list ((tasks r)[t := Waiting]) y + (if NotCalled = y then 1 else 0)
      = count_list (tasks r) y + (if Waiting = y then 1 else 0)" for y
    using count_list_update [OF t(1), of Waiting y] t(2) by simp
  have cr: "count_list ((notify_all_tasks (tasks r))[t := Returned]) y + (if NotCalled = y then 1 else 0)
      = count_list (notify_all_tasks (tasks r)) y + (if Returned = y then 1 else 0)" for y
    using count_list_update [of t "notify_all_tasks (tasks r)" Returned y] t
    by (simp add: notify_all_tasks_def)
  show "bar_inv n (bar_step (Call t) r)"
  proof (cases "?k = 1")
    case True
    have "tasks r ! j \<noteq> NotCalled" if "j < length (tasks r)" "j \<noteq> t" for j
      using count_list_one_unique [OF True t that(1)] that(2) by auto
    then have "set ((notify_all_tasks (tasks r))[t := Returned]) \<subseteq> {Woken, Returned}"
      using sub t(1)
      by (auto simp: set_conv_nth nth_list_update notify_all_tasks_def)
    moreover have "count_list ((notify_all_tasks (tasks r))[t := Returned]) NotCalled = 0"
      using cr [of NotCalled] True by (simp add: notify_counts)
    ultimately show ?thesis
      using last [OF True] len count_list_pos [of "(notify_all_tasks (tasks r))[t := Returned]" NotCalled]
      by (auto simp: bar_inv_def)
  next
    case False
    have "set ((tasks r)[t := Waiting]) \<subseteq> {NotCalled, Waiting}"
      using sub set_update_subset_insert [of "tasks r" t Waiting] by auto
    moreover have c: "count_list ((tasks r)[t := Waiting]) NotCalled = ?k - 1"
      using cw [of NotCalled] by simp
    moreover have "NotCalled \<in> set ((tasks r)[t := Waiting])"
      using c False kpos count_list_pos [of "(tasks r)[t := Waiting]" NotCalled] by simp
    ultimately show ?thesis
      using False len by (simp add: bar_inv_def step_eq del: of_nat_diff)
  qed
  show "bar_measure (bar_step (Call t) r) < bar_measure r"
  proof (cases "?k = 1")
    case True
    show ?thesis
      using last [OF True] cr [of NotCalled] cr [of Waiting] cr [of Woken] True
      by (simp add: bar_measure_def notify_counts)
  next
    case False
    show ?thesis
      using notlast [OF False] cw [of NotCalled] cw [of Waiting] cw [of Woken] kpos
      by (simp add: bar_measure_def)
  qed
qed

lemma bar_step_Wake:
  assumes inv: "bar_inv n r" and en: "bar_enabled (Wake t) r"
  shows "bar_inv n (bar_step (Wake t) r)"
    and "bar_measure (bar_step (Wake t) r) < bar_measure r"
    and "tasks (bar_step (Wake t) r) = (tasks r)[t := Returned]"
proof -
  from en have t: "t < length (tasks r)" "tasks r ! t = Woken"
    by (simp_all add: bar_enabled_def)
  then have mem: "Woken \<in> set (tasks r)" by (metis nth_mem)
  with inv have nn: "NotCalled \<notin> set (tasks r)"
    by (auto simp: bar_inv_def split: if_splits)
  with inv have sub: "set (tasks r) \<subseteq> {Woken, Returned}"
    and cnt: "m_uiNumFibersToWaitFor (bar r) = 0"
    and len: "length (tasks r) = n" "n < 2 ^ 64"
    using count_list_pos [of "tasks r" NotCalled]
    by (simp_all add: bar_inv_def)
  show st: "tasks (bar_step (Wake t) r) = (tasks r)[t := Returned]"
    using cnt by (simp add: bar_step_def wait_predicate_def)
  have cr: "count_list ((tasks r)[t := Returned]) y + (if Woken = y then 1 else 0)
      = count_list (tasks r) y + (if Returned = y then 1 else 0)" for y
    using count_list_update [OF t(1), of Returned y] t(2) by simp
  have s2: "set ((tasks r)[t := Returned]) \<subseteq> {Woken, Returned}"
    using sub set_update_subset_insert [of "tasks r" t Returned] by auto
  then have n2: "NotCalled \<notin> set ((tasks r)[t := Returned])" by auto
  then have "count_list ((tasks r)[t := Returned]) NotCalled = 0"
    using count_list_pos [of "(tasks r)[t := Returned]" NotCalled] by simp
  with s2 n2 show "bar_inv n (bar_step (Wake t) r)"
    using st len cnt by (simp add: bar_inv_def bar_step_def wait_predicate_def)
  show "bar_measure (bar_step (Wake t) r) < bar_measure r"
    using st cr [of NotCalled] cr [of Waiting] cr [of Woken] count_list_pos [of "tasks r" Woken] mem
    by (simp add: bar_measure_def)
qed

lemma bar_step_inv:
  "bar_inv n r \<Longrightarrow> bar_enabled e r \<Longrightarrow>
   bar_inv n (bar_step e r) \<and> bar_measure (bar_step e r) < bar_measure r"
  by (cases e) (simp_all add: bar_step_Call bar_step_Wake)

lemma bar_init_inv: "bar_inv (unat c) (bar_init c)"
  using unsigned_less [of c, where 'a = nat]
  by (simp add: bar_inv_def bar_init_def count_list_replicate)

lemma bar_run_inv:
  "bar_inv n r0 \<Longrightarrow> bar_run es r0 = Some r \<Longrightarrow>
   bar_inv n r \<and> length es + bar_measure r \<le> bar_measure r0"
proof (induction es arbitrary: r0)
  case Nil
  then show ?case by simp
next
  case (Cons e es)
  from Cons.prems have en: "bar_enabled e r0" and run: "bar_run es (bar_step e r0) = Some r"
    by (simp_all split: if_splits)
  from bar_step_inv [OF Cons.prems(1) en] Cons.IH [OF _ run] show ?case by force
qed

lemma bar_progress:
  assumes "bar_inv n r" "\<not> all_returned r"
  shows "\<exists>e. bar_enabled e r"
proof (cases "NotCalled \<in> set (tasks r)")
  case True
  then obtain t where "t < length (tasks r)" "tasks r ! t = NotCalled"
    by (auto simp: in_set_conv_nth)
  then have "bar_enabled (Call t) r" by (simp add: bar_enabled_def)
  then show ?thesis ..
next
  case False
  with assms have "set (tasks r) \<subseteq> {Woken, Returned}" by (simp add: bar_inv_def)
  moreover from assms(2) obtain t where "t < length (tasks r)" "tasks r ! t \<noteq> Returned"
    by (auto simp: all_returned_def list_all_length)
  moreover from this have "tasks r ! t \<in> set (tasks r)" by simp
  ultimately have "tasks r ! t = Woken" by blast
  with \<open>t < length (tasks r)\<close> have "bar_enabled (Wake t) r"
    by (simp add: bar_enabled_def)
  then show ?thesis ..
qed

lemma bar_run_append:
  "bar_run (es @ es') r = (case bar_run es r of None \<Rightarrow> None | Some r1 \<Rightarrow> bar_run es' r1)"
  by (induction es arbitrary: r) simp_all

lemma bar_completion:
  "bar_inv n r \<Longrightarrow> \<exists>es r'. bar_run es r = Some r' \<and> all_returned r'"
proof (induction "bar_measure r" arbitrary: r rule: less_induct)
  case less
  show ?case
  proof (cases "all_returned r")
    case True
    then have "bar_run [] r = Some r \<and> all_returned r" by simp
    then show ?thesis by blast
  next
    case False
    from bar_progress [OF less.prems False] obtain e where en: "bar_enabled e r" ..
    from bar_step_inv [OF less.prems en] less.hyps [of "bar_step e r"]
    obtain es r' where "bar_run es (bar_step e r) = Some r'" "all_returned r'" by blast
    with en have "bar_run (e # es) r = Some r' \<and> all_returned r'" by simp
    then show ?thesis by blast
  qed
qed

lemma of_nat_size_t_one: "k < 2 ^ 64 \<Longrightarrow> ((of_nat k :: size_t) = 1) = (k = 1)"
proof
  assume k: "k < 2 ^ 64" and "(of_nat k :: size_t) = 1"
  then have "unat (of_nat k :: size_t) = 1" by simp
  with k show "k = 1" by (simp add: unat_of_nat)
qed simp

text \<open>
  C4. Take a barrier whose counter is \<open>c\<close> and \<open>unat c\<close> tasks that each call
  \<open>wait\<close> once, and let the scheduler interleave them in any way (\<open>es\<close>). Then
  no task has returned while some task has not called yet; the run has at most two events
  per task; as long as not all tasks have returned some task can run, and the run can be
  continued to one in which all have returned; and the call that finds the counter at 1
  is the last of the calls, sets the counter to 0, returns at once and wakes every other
  task, all of which were waiting, while a call that finds another value suspends.
\<close>
theorem barrier_rendezvous:
  assumes run: "bar_run es (bar_init c) = Some r"
  shows "length (tasks r) = unat c
    \<and> (Returned \<in> set (tasks r) \<longrightarrow> NotCalled \<notin> set (tasks r))
    \<and> length es \<le> 2 * unat c
    \<and> (\<not> all_returned r \<longrightarrow> (\<exists>e. bar_enabled e r))
    \<and> (\<exists>es' r'. bar_run (es @ es') (bar_init c) = Some r' \<and> all_returned r')
    \<and> (\<forall>t. bar_enabled (Call t) r \<longrightarrow>
          (if m_uiNumFibersToWaitFor (bar r) = 1
           then count_list (tasks r) NotCalled = 1
              \<and> m_uiNumFibersToWaitFor (bar (bar_step (Call t) r)) = 0
              \<and> tasks (bar_step (Call t) r) ! t = Returned
              \<and> (\<forall>i < unat c. i \<noteq> t \<longrightarrow>
                    tasks r ! i = Waiting \<and> tasks (bar_step (Call t) r) ! i = Woken)
           else m_uiNumFibersToWaitFor (bar (bar_step (Call t) r)) \<noteq> 0
              \<and> tasks (bar_step (Call t) r) = (tasks r)[t := Waiting]))"
proof -
  from bar_run_inv [OF bar_init_inv run]
  have inv: "bar_inv (unat c) r" and le: "length es + bar_measure r \<le> bar_measure (bar_init c)"
    by simp_all
  from inv have len: "length (tasks r) = unat c" by (simp add: bar_inv_def)
  have early: "Returned \<in> set (tasks r) \<longrightarrow> NotCalled \<notin> set (tasks r)"
    using inv by (auto simp: bar_inv_def split: if_splits)
  have "bar_measure (bar_init c) = 2 * unat c"
    by (simp add: bar_measure_def bar_init_def count_list_replicate)
  with le have fin: "length es \<le> 2 * unat c" by simp
  have live: "\<not> all_returned r \<longrightarrow> (\<exists>e. bar_enabled e r)"
    using bar_progress [OF inv] by blast
  from bar_completion [OF inv] obtain es' r' where "bar_run es' r = Some r'" "all_returned r'"
    by blast
  with run have "bar_run (es @ es') (bar_init c) = Some r' \<and> all_returned r'"
    by (simp add: bar_run_append)
  then have compl: "\<exists>es' r'. bar_run (es @ es') (bar_init c) = Some r' \<and> all_returned r'"
    by blast
  have call: "if m_uiNumFibersToWaitFor (bar r) = 1
           then count_list (tasks r) NotCalled = 1
              \<and> m_uiNumFibersToWaitFor (bar (bar_step (Call t) r)) = 0
              \<and> tasks (bar_step (Call t) r) ! t = Returned
              \<and> (\<forall>i < unat c. i \<noteq> t \<longrightarrow>
                    tasks r ! i = Waiting \<and> tasks (bar_step (Call t) r) ! i = Woken)
           else m_uiNumFibersToWaitFor (bar (bar_step (Call t) r)) \<noteq> 0
              \<and> tasks (bar_step (Call t) r) = (tasks r)[t := Waiting]"
    if en: "bar_enabled (Call t) r" for t
  proof -
    let ?k = "count_list (tasks r) NotCalled"
    from en have t: "t < length (tasks r)" "tasks r ! t = NotCalled"
      by (simp_all add: bar_enabled_def)
    then have mem: "NotCalled \<in> set (tasks r)" by (metis nth_mem)
    from inv have "?k < 2 ^ 64"
      using count_list_le_length [of "tasks r" NotCalled] by (simp add: bar_inv_def)
    with inv have one: "(m_uiNumFibersToWaitFor (bar r) = 1) = (?k = 1)"
      by (simp add: bar_inv_def of_nat_size_t_one)
    show ?thesis
    proof (cases "?k = 1")
      case True
      from inv mem have sub: "set (tasks r) \<subseteq> {NotCalled, Waiting}" by (simp add: bar_inv_def)
      have w: "tasks r ! i = Waiting" if "i < unat c" "i \<noteq> t" for i
      proof -
        from that len have i: "i < length (tasks r)" by simp
        then have "tasks r ! i \<in> set (tasks r)" by simp
        moreover have "tasks r ! i \<noteq> NotCalled"
          using count_list_one_unique [OF True t i] that(2) by auto
        ultimately show ?thesis using sub by blast
      qed
      from bar_step_Call(3) [OF inv en True] w t len one True show ?thesis
        by (simp add: notify_all_tasks_def)
    next
      case False
      from bar_step_Call(4) [OF inv en False] one False show ?thesis by simp
    qed
  qed
  from len early fin live compl call show ?thesis by blast
qed

theorem barrier_rendezvous_witness:
  "bar_run [Call 0, Call 1, Wake 0] (bar_init 2)
     = Some \<lparr>bar = \<lparr>m_uiNumFibersToWaitFor = 0\<rparr>, tasks = [Returned, Returned]\<rparr>
   \<and> length [Call 0, Call 1, Wake 0] \<le> 2 * unat (2 :: size_t)
   \<and> (\<exists>es' r'. bar_run ([Call 0, Call 1, Wake 0] @ es') (bar_init 2) = Some r' \<and> all_returned r')"
proof -
  have u: "unat (2 :: size_t) = 2" by simp
  have rep: "replicate 2 NotCalled = [NotCalled, NotCalled]" by (simp add: numeral_2_eq_2)
  have i: "bar_init 2 = \<lparr>bar = \<lparr>m_uiNumFibersToWaitFor = 2\<rparr>, tasks = [NotCalled, NotCalled]\<rparr>"
    unfolding bar_init_def u rep by (rule refl)
  have r: "bar_run [Call 0, Call 1, Wake 0] (bar_init 2)
     = Some \<lparr>bar = \<lparr>m_uiNumFibersToWaitFor = 0\<rparr>, tasks = [Returned, Returned]\<rparr>"
    unfolding i
    by (simp add: bar_enabled_def bar_step_def wait_arrive_def wait_predicate_def
        notify_all_tasks_def)
  from barrier_rendezvous [OF r] r show ?thesis by simp
qed

section \<open>The fibers of a block\<close>

subsection \<open>Effects of the state functions\<close>

lemma advance_fields [simp]:
  "m_vFibersInBlock (advance prog i s) =
     (m_vFibersInBlock s)[i := (m_vFibersInBlock s ! i)
        \<lparr>f_pc := Suc (f_pc (m_vFibersInBlock s ! i)),
         f_status := (if length prog \<le> Suc (f_pc (m_vFibersInBlock s ! i)) then Done else Ready)\<rparr>]"
  "running (advance prog i s) =
     (if length prog \<le> Suc (f_pc (m_vFibersInBlock s ! i)) then None else Some i)"
  "toSpawn (advance prog i s) = toSpawn s"
  "m_abarSyncFibers (advance prog i s) = m_abarSyncFibers s"
  "m_mFibersToIndices (advance prog i s) = m_mFibersToIndices s"
  "m_mFibersToBarrier (advance prog i s) = m_mFibersToBarrier s"
  "m_uiNumKernelsPerBlock (advance prog i s) = m_uiNumKernelsPerBlock s"
  "m_idMasterFiber (advance prog i s) = m_idMasterFiber s"
  "m_vvuiSharedMem (advance prog i s) = m_vvuiSharedMem s"
  "m_vuiExternalSharedMem (advance prog i s) = m_vuiExternalSharedMem s"
  "m_v3uiGridBlockIdx (advance prog i s) = m_v3uiGridBlockIdx s"
  "m_workSize (advance prog i s) = m_workSize s"
  "recorded (advance prog i s) = recorded s"
  by (simp_all add: advance_def set_fiber_def Let_def)

lemma suspend_fields [simp]:
  "m_vFibersInBlock (suspend i b s) =
     (m_vFibersInBlock s)[i := (m_vFibersInBlock s ! i)\<lparr>f_status := Suspended b\<rparr>]"
  "running (suspend i b s) = None"
  "toSpawn (suspend i b s) = toSpawn s"
  "m_abarSyncFibers (suspend i b s) = m_abarSyncFibers s"
  "m_mFibersToIndices (suspend i b s) = m_mFibersToIndices s"
  "m_mFibersToBarrier (suspend i b s) = m_mFibersToBarrier s"
  "m_uiNumKernelsPerBlock (suspend i b s) = m_uiNumKernelsPerBlock s"
  "m_idMasterFiber (suspend i b s) = m_idMasterFiber s"
  "m_vvuiSharedMem (suspend i b s) = m_vvuiSharedMem s"
  "m_vuiExternalSharedMem (suspend i b s) = m_vuiExternalSharedMem s"
  "m_v3uiGridBlockIdx (suspend i b s) = m_v3uiGridBlockIdx s"
  "m_workSize (suspend i b s) = m_workSize s"
  "recorded (suspend i b s) = recorded s"
  by (simp_all add: suspend_def set_fiber_def)

lemma notify_all_fields [simp]:
  "m_vFibersInBlock (notify_all b s) =
     map (\<lambda>f. if f_status f = Suspended b then f\<lparr>f_status := Notified b\<rparr> else f)
       (m_vFibersInBlock s)"
  "running (notify_all b s) = running s"
  "toSpawn (notify_all b s) = toSpawn s"
  "m_abarSyncFibers (notify_all b s) = m_abarSyncFibers s"
  "m_mFibersToIndices (notify_all b s) = m_mFibersToIndices s"
  "m_mFibersToBarrier (notify_all b s) = m_mFibersToBarrier s"
  "m_uiNumKernelsPerBlock (notify_all b s) = m_uiNumKernelsPerBlock s"
  "m_idMasterFiber (notify_all b s) = m_idMasterFiber s"
  "m_vvuiSharedMem (notify_all b s) = m_vvuiSharedMem s"
  "m_vuiExternalSharedMem (notify_all b s) = m_vuiExternalSharedMem s"
  "m_v3uiGridBlockIdx (notify_all b s) = m_v3uiGridBlockIdx s"
  "m_workSize (notify_all b s) = m_workSize s"
  "recorded (notify_all b s) = recorded s"
  by (simp_all add: notify_all_def)

subsection \<open>Counting\<close>

lemma syncs_take_Suc:
  "pc < length prog \<Longrightarrow>
   syncs (take (Suc pc) prog) = syncs (take pc prog) + (if prog ! pc = SyncBlockKernels then 1 else 0)"
  by (simp add: syncs_def take_Suc_conv_app_nth)

lemma syncs_take_mono: "i \<le> j \<Longrightarrow> syncs (take i prog) \<le> syncs (take j prog)"
proof -
  assume "i \<le> j"
  then have "take j prog = take i prog @ take (j - i) (drop i prog)"
    by (metis le_add_diff_inverse take_add)
  then show ?thesis by (simp add: syncs_def)
qed

lemma syncs_take_le: "syncs (take i prog) \<le> syncs prog"
  using syncs_take_mono [of i "length prog" prog]
  by (cases "i \<le> length prog") (simp_all add: syncs_def)

lemma suspended_count_update:
  "i < length fs \<Longrightarrow>
   suspended_count (fs[i := f]) + (if is_suspended (f_status (fs ! i)) then 1 else 0)
     = suspended_count fs + (if is_suspended (f_status f) then 1 else 0)"
  using count_list_update [of i "map (\<lambda>f. is_suspended (f_status f)) fs" "is_suspended (f_status f)" True]
  by (simp add: suspended_count_def map_update)

lemma suspended_count_append [simp]:
  "suspended_count (fs @ [f]) = suspended_count fs + (if is_suspended (f_status f) then 1 else 0)"
  by (simp add: suspended_count_def)

lemma suspended_count_le: "suspended_count fs \<le> length fs"
  using count_list_le_length [of "map (\<lambda>f. is_suspended (f_status f)) fs" True]
  by (simp add: suspended_count_def)

lemma suspended_count_zero:
  "(suspended_count fs = 0) = (\<forall>f \<in> set fs. \<not> is_suspended (f_status f))"
  using count_list_pos [of "map (\<lambda>f. is_suspended (f_status f)) fs" True]
  by (auto simp: suspended_count_def)

lemma count_list_bool: "count_list bs True + count_list bs False = length bs"
  by (induction bs) auto

lemma all_others_suspended:
  assumes k: "Suc (suspended_count fs) = length fs" and i: "i < length fs"
    and ni: "\<not> is_suspended (f_status (fs ! i))" and j: "j < length fs" "j \<noteq> i"
  shows "is_suspended (f_status (fs ! j))"
proof (rule ccontr)
  let ?bs = "map (\<lambda>f. is_suspended (f_status f)) fs"
  assume nj: "\<not> is_suspended (f_status (fs ! j))"
  from k count_list_bool [of ?bs] have "count_list ?bs False = 1"
    by (simp add: suspended_count_def)
  from count_list_one_unique [OF this, of i j] i j ni nj show False by simp
qed

lemma unat_of_nat_mod2: "unat (of_nat g :: size_t) mod 2 = g mod 2"
proof -
  have "(2::nat) dvd 2 ^ 64" by simp
  then show ?thesis by (simp add: unat_of_nat mod_mod_cancel)
qed

lemma Suc_mod2_neq: "Suc g mod 2 \<noteq> g mod 2"
  by presburger

lemma Suc_Suc_mod2: "Suc (Suc g) mod 2 = g mod 2"
  by presburger

subsection \<open>The invariant depends on part of the state only\<close>

lemma block_inv_core_eq: "core_eq s t \<Longrightarrow> block_inv prog n g t = block_inv prog n g s"
  by (simp add: core_eq_def block_inv_def bars_ok_def tables_ok_def running_ok_def
      cong: option.case_cong)

lemma fiber_ok_Done: "fiber_ok prog g f \<Longrightarrow> f_status f = Done \<Longrightarrow> g = syncs prog"
  by (auto simp: fiber_ok_def passed_def)

subsection \<open>The construction of a fiber\<close>

lemma block_inv_spawn:
  assumes inv: "block_inv prog n g s" and ok: "prog_ok prog"
    and en: "enabled prog (Spawn idFiber) s"
  shows "block_inv prog n g (spawn idFiber s)"
proof -
  let ?fs = "m_vFibersInBlock s"
  from en obtain v rest where ts: "toSpawn s = v # rest" and fresh: "idFiber \<notin> set (alive_ids s)"
    and run: "running s = None"
    by (cases "toSpawn s") (auto simp: enabled_def)
  let ?f = "\<lparr>f_id = idFiber, f_arg = v, f_pc = 0, f_status = Ready\<rparr>"
  have sp: "spawn idFiber s = s\<lparr>m_vFibersInBlock := ?fs @ [?f], toSpawn := rest\<rparr>"
    by (simp add: spawn_def ts)
  from inv ts have g0: "g = 0" by (simp add: block_inv_def)
  from inv have fok: "\<forall>f \<in> set ?fs. fiber_ok prog g f" by (simp add: block_inv_def)
  have nodone: "f_status f \<noteq> Done" if "f \<in> set ?fs" for f
    using fiber_ok_Done [of prog g f] fok that g0 ok by (auto simp: prog_ok_def)
  then have "alive_ids s = map f_id ?fs"
    by (simp add: alive_ids_def filter_id_conv)
  with fresh have fr: "idFiber \<notin> f_id ` set ?fs" by simp
  have new: "fiber_ok prog g ?f"
    using ok g0 by (simp add: fiber_ok_def passed_def prog_ok_def syncs_def)
  from inv have tab: "tables_ok prog s" by (simp add: block_inv_def)
  have tab': "tables_ok prog (spawn idFiber s)"
    using tab fr unfolding sp tables_ok_def by (auto simp: domIff)
  have bars': "bars_ok n g (spawn idFiber s)"
    using inv unfolding sp by (simp add: block_inv_def bars_ok_def)
  have run': "running_ok (spawn idFiber s)"
    using run unfolding sp by (simp add: running_ok_def)
  show ?thesis
    using inv new tab' bars' run' g0 ts unfolding block_inv_def sp by auto
qed

lemma map_f_id_update:
  "i < length fs \<Longrightarrow> f_id f = f_id (fs ! i) \<Longrightarrow> map f_id (fs[i := f]) = map f_id fs"
  by (simp add: map_update list_update_same_conv)

lemma set_f_id_update:
  "i < length fs \<Longrightarrow> f_id f = f_id (fs ! i) \<Longrightarrow> f_id ` set (fs[i := f]) = f_id ` set fs"
  using map_f_id_update [of i fs f] by (metis set_map)

lemma in_set_updateD:
  "x \<in> set (fs[i := f]) \<Longrightarrow> x = f \<or> (\<exists>j < length fs. j \<noteq> i \<and> x = fs ! j)"
proof -
  assume "x \<in> set (fs[i := f])"
  then obtain k where k: "k < length fs" "x = fs[i := f] ! k"
    by (auto simp: in_set_conv_nth)
  show ?thesis
  proof (cases "k = i")
    case True
    with k show ?thesis by simp
  next
    case False
    with k have "x = fs ! k" by simp
    with k False show ?thesis by blast
  qed
qed

lemma distinct_ids_neq:
  "distinct (map f_id fs) \<Longrightarrow> i < length fs \<Longrightarrow> j < length fs \<Longrightarrow> j \<noteq> i \<Longrightarrow>
   f_id (fs ! j) \<noteq> f_id (fs ! i)"
  by (metis length_map nth_eq_iff_index_eq nth_map)

text \<open>A ready fiber goes past an operation that is not a synchronisation.\<close>
lemma block_inv_advance:
  assumes inv: "block_inv prog n g s" and i: "i < length (m_vFibersInBlock s)"
    and st: "f_status (m_vFibersInBlock s ! i) = Ready"
    and op: "prog ! f_pc (m_vFibersInBlock s ! i) \<noteq> SyncBlockKernels"
    and pc: "0 < f_pc (m_vFibersInBlock s ! i)"
  shows "block_inv prog n g (advance prog i s)"
proof -
  let ?fs = "m_vFibersInBlock s"
  let ?f = "?fs ! i"
  let ?f' = "?f\<lparr>f_pc := Suc (f_pc ?f), f_status := (if length prog \<le> Suc (f_pc ?f) then Done else Ready)\<rparr>"
  from inv have fok: "\<forall>f \<in> set ?fs. fiber_ok prog g f" and tab: "tables_ok prog s"
    and bars: "bars_ok n g s"
    by (simp_all add: block_inv_def)
  from fok i have "fiber_ok prog g ?f" by simp
  with st have lt: "f_pc ?f < length prog" and pg: "passed prog ?f = g"
    by (simp_all add: fiber_ok_def)
  have pg': "passed prog ?f' = g"
    using pg op lt by (simp add: passed_def syncs_take_Suc)
  have new: "fiber_ok prog g ?f'"
    using pg' lt by (auto simp: fiber_ok_def)
  have fok': "\<forall>f \<in> set (?fs[i := ?f']). fiber_ok prog g f"
    using fok new by (auto dest: in_set_updateD)
  have k: "suspended_count (?fs[i := ?f']) = suspended_count ?fs"
    using suspended_count_update [OF i, of ?f'] st by simp
  have bars': "bars_ok n g (advance prog i s)"
    using bars k by (simp add: bars_ok_def)
  have ids: "map f_id (?fs[i := ?f']) = map f_id ?fs"
    using i by (simp add: map_f_id_update)
  have ent: "m_mFibersToIndices s (f_id ?f) = Some (f_arg ?f)
      \<and> m_mFibersToBarrier s (f_id ?f) = Some (of_nat (passed prog ?f))"
    using tab i pc by (auto simp: tables_ok_def)
  have tab': "tables_ok prog (advance prog i s)"
    unfolding tables_ok_def advance_fields ids
    using tab ent pg pg' set_f_id_update [OF i, of ?f']
    by (auto simp: tables_ok_def dest!: in_set_updateD)
  have run': "running_ok (advance prog i s)"
    using i by (simp add: running_ok_def)
  show ?thesis
    using inv fok' bars' tab' run' by (simp add: block_inv_def)
qed

lemma register_fiber_fields [simp]:
  "m_mFibersToIndices (register_fiber idFiber v s) = map_insert (m_mFibersToIndices s) idFiber v"
  "m_mFibersToBarrier (register_fiber idFiber v s) = map_insert (m_mFibersToBarrier s) idFiber 0"
  "m_idMasterFiber (register_fiber idFiber v s)
     = (if v = (0, 0, 0) then Some idFiber else m_idMasterFiber s)"
  "m_vFibersInBlock (register_fiber idFiber v s) = m_vFibersInBlock s"
  "running (register_fiber idFiber v s) = running s"
  "toSpawn (register_fiber idFiber v s) = toSpawn s"
  "m_abarSyncFibers (register_fiber idFiber v s) = m_abarSyncFibers s"
  "m_uiNumKernelsPerBlock (register_fiber idFiber v s) = m_uiNumKernelsPerBlock s"
  "m_vvuiSharedMem (register_fiber idFiber v s) = m_vvuiSharedMem s"
  "m_vuiExternalSharedMem (register_fiber idFiber v s) = m_vuiExternalSharedMem s"
  "m_v3uiGridBlockIdx (register_fiber idFiber v s) = m_v3uiGridBlockIdx s"
  "m_workSize (register_fiber idFiber v s) = m_workSize s"
  "recorded (register_fiber idFiber v s) = recorded s"
  by (simp_all add: register_fiber_def Let_def)

lemma map_insert_None: "m k = None \<Longrightarrow> map_insert m k v = m(k \<mapsto> v)"
  by (simp add: map_insert_def)

lemma map_insert_Some: "m k = Some w \<Longrightarrow> map_insert m k v = m"
  by (simp add: map_insert_def)

text \<open>A ready fiber runs the entry of \<open>fiberKernel\<close>.\<close>
lemma block_inv_register:
  assumes inv: "block_inv prog n g s" and ok: "prog_ok prog"
    and i: "i < length (m_vFibersInBlock s)"
    and st: "f_status (m_vFibersInBlock s ! i) = Ready"
    and op: "prog ! f_pc (m_vFibersInBlock s ! i) = Register"
  shows "block_inv prog n g
           (advance prog i (register_fiber (f_id (m_vFibersInBlock s ! i))
              (f_arg (m_vFibersInBlock s ! i)) s))"
proof (cases "f_pc (m_vFibersInBlock s ! i) = 0")
  case False
  let ?f = "m_vFibersInBlock s ! i"
  let ?s2 = "register_fiber (f_id ?f) (f_arg ?f) s"
  from inv have tab: "tables_ok prog s" by (simp add: block_inv_def)
  with i False have "m_mFibersToIndices s (f_id ?f) = Some (f_arg ?f)"
    "m_mFibersToBarrier s (f_id ?f) = Some (of_nat (passed prog ?f))"
    by (auto simp: tables_ok_def)
  then have "core_eq s ?s2"
    by (simp add: core_eq_def map_insert_Some)
  with inv have "block_inv prog n g ?s2" by (simp add: block_inv_core_eq)
  from block_inv_advance [OF this, of i] i st op False show ?thesis by simp
next
  case True
  let ?fs = "m_vFibersInBlock s"
  let ?f = "?fs ! i"
  let ?s2 = "register_fiber (f_id ?f) (f_arg ?f) s"
  let ?f' = "?f\<lparr>f_pc := Suc (f_pc ?f), f_status := (if length prog \<le> Suc (f_pc ?f) then Done else Ready)\<rparr>"
  from inv have fok: "\<forall>f \<in> set ?fs. fiber_ok prog g f" and tab: "tables_ok prog s"
    and bars: "bars_ok n g s"
    by (simp_all add: block_inv_def)
  from fok i have "fiber_ok prog g ?f" by simp
  with st have lt: "f_pc ?f < length prog" and pg: "passed prog ?f = g"
    by (simp_all add: fiber_ok_def)
  from pg True have g0: "g = 0" by (simp add: passed_def syncs_def)
  have pg': "passed prog ?f' = 0"
    using syncs_take_Suc [of 0 prog] True op lt by (simp add: passed_def) (simp add: syncs_def)
  have new: "fiber_ok prog g ?f'"
    using pg' lt g0 by (auto simp: fiber_ok_def)
  have fok': "\<forall>f \<in> set (?fs[i := ?f']). fiber_ok prog g f"
    using fok new by (auto dest: in_set_updateD)
  have k: "suspended_count (?fs[i := ?f']) = suspended_count ?fs"
    using suspended_count_update [OF i, of ?f'] st by simp
  have bars': "bars_ok n g (advance prog i ?s2)"
    using bars k by (simp add: bars_ok_def)
  have ids: "map f_id (?fs[i := ?f']) = map f_id ?fs"
    using i by (simp add: map_f_id_update)
  have none: "m_mFibersToIndices s (f_id ?f) = None" "m_mFibersToBarrier s (f_id ?f) = None"
    using tab i True by (auto simp: tables_ok_def)
  have dist: "distinct (map f_id ?fs)" using tab by (simp add: tables_ok_def)
  have other: "f_id (?fs ! j) \<noteq> f_id ?f" if "j < length ?fs" "j \<noteq> i" for j
    using distinct_ids_neq [OF dist i that] .
  have old: "if f_pc (?fs ! j) = 0
            then m_mFibersToIndices s (f_id (?fs ! j)) = None
               \<and> m_mFibersToBarrier s (f_id (?fs ! j)) = None
            else m_mFibersToIndices s (f_id (?fs ! j)) = Some (f_arg (?fs ! j))
               \<and> m_mFibersToBarrier s (f_id (?fs ! j)) = Some (of_nat (passed prog (?fs ! j)))"
    if "j < length ?fs" for j
    using tab that unfolding tables_ok_def by (metis nth_mem)
  have doms: "dom (m_mFibersToIndices s) \<subseteq> f_id ` set ?fs"
    "dom (m_mFibersToBarrier s) \<subseteq> f_id ` set ?fs"
    using tab by (simp_all add: tables_ok_def)
  have mem: "f_id ?f \<in> f_id ` set ?fs" using i by simp
  have ins: "map_insert (m_mFibersToIndices s) (f_id ?f) v = (m_mFibersToIndices s)(f_id ?f \<mapsto> v)"
    "map_insert (m_mFibersToBarrier s) (f_id ?f) w = (m_mFibersToBarrier s)(f_id ?f \<mapsto> w)" for v w
    using none by (simp_all add: map_insert_def)
  have sids: "f_id ` set (?fs[i := ?f']) = f_id ` set ?fs"
    using set_f_id_update [OF i, of ?f'] by simp
  have tab': "tables_ok prog (advance prog i ?s2)"
    unfolding tables_ok_def advance_fields register_fiber_fields ids ins sids
    using dist other old pg' doms mem
    by (auto dest!: in_set_updateD)
  have run': "running_ok (advance prog i ?s2)"
    using i by (simp add: running_ok_def)
  show ?thesis
    using inv fok' bars' tab' run' by (simp add: block_inv_def)
qed

lemma arrive_bar_fields [simp]:
  "m_uiNumFibersToWaitFor (m_abarSyncFibers (arrive_bar b c s) x)
     = (if x = b then c else m_uiNumFibersToWaitFor (m_abarSyncFibers s x))"
  "m_vFibersInBlock (arrive_bar b c s) = m_vFibersInBlock s"
  "running (arrive_bar b c s) = running s"
  "toSpawn (arrive_bar b c s) = toSpawn s"
  "m_mFibersToIndices (arrive_bar b c s) = m_mFibersToIndices s"
  "m_mFibersToBarrier (arrive_bar b c s) = m_mFibersToBarrier s"
  "m_uiNumKernelsPerBlock (arrive_bar b c s) = m_uiNumKernelsPerBlock s"
  "m_idMasterFiber (arrive_bar b c s) = m_idMasterFiber s"
  "m_vvuiSharedMem (arrive_bar b c s) = m_vvuiSharedMem s"
  "m_vuiExternalSharedMem (arrive_bar b c s) = m_vuiExternalSharedMem s"
  "m_v3uiGridBlockIdx (arrive_bar b c s) = m_v3uiGridBlockIdx s"
  "m_workSize (arrive_bar b c s) = m_workSize s"
  "recorded (arrive_bar b c s) = recorded s"
  by (simp_all add: arrive_bar_def)

lemma set_phase_fields [simp]:
  "m_mFibersToBarrier (set_phase idFiber p s) = (m_mFibersToBarrier s)(idFiber \<mapsto> p)"
  "m_abarSyncFibers (set_phase idFiber p s) = m_abarSyncFibers s"
  "m_vFibersInBlock (set_phase idFiber p s) = m_vFibersInBlock s"
  "running (set_phase idFiber p s) = running s"
  "toSpawn (set_phase idFiber p s) = toSpawn s"
  "m_mFibersToIndices (set_phase idFiber p s) = m_mFibersToIndices s"
  "m_uiNumKernelsPerBlock (set_phase idFiber p s) = m_uiNumKernelsPerBlock s"
  "m_idMasterFiber (set_phase idFiber p s) = m_idMasterFiber s"
  "m_vvuiSharedMem (set_phase idFiber p s) = m_vvuiSharedMem s"
  "m_vuiExternalSharedMem (set_phase idFiber p s) = m_vuiExternalSharedMem s"
  "m_v3uiGridBlockIdx (set_phase idFiber p s) = m_v3uiGridBlockIdx s"
  "m_workSize (set_phase idFiber p s) = m_workSize s"
  "recorded (set_phase idFiber p s) = recorded s"
  by (simp_all add: set_phase_def)

lemma syncBlockKernels_arrive_eq:
  assumes "m_mFibersToBarrier s idFiber = Some p"
  shows "syncBlockKernels_arrive idFiber s =
     (let b = unat p mod 2;
          c0 = m_uiNumFibersToWaitFor (m_abarSyncFibers s b);
          c1 = (if c0 = 0 then m_uiNumKernelsPerBlock s else c0) - 1
      in Inr (c1 = 0, b, if c1 = 0 then notify_all b (arrive_bar b c1 s) else arrive_bar b c1 s))"
  using assms
  by (simp add: syncBlockKernels_arrive_def Let_def getNumFibersToWaitFor_def reset_def
      wait_arrive_def arrive_bar_def)

lemma syncBlockKernels_leave_eq:
  "m_mFibersToBarrier s idFiber = Some p \<Longrightarrow>
   syncBlockKernels_leave idFiber s = Inr (set_phase idFiber (p + 1) s)"
  by (simp add: syncBlockKernels_leave_def set_phase_def)

lemma exec_sync_eq:
  assumes "m_mFibersToBarrier s (f_id (m_vFibersInBlock s ! i)) = Some p"
  shows "exec_op prog i SyncBlockKernels s =
     (let b = unat p mod 2;
          c0 = m_uiNumFibersToWaitFor (m_abarSyncFibers s b);
          c1 = (if c0 = 0 then m_uiNumKernelsPerBlock s else c0) - 1
      in if c1 = 0
         then Inr (advance prog i
                (set_phase (f_id (m_vFibersInBlock s ! i)) (p + 1) (notify_all b (arrive_bar b c1 s))))
         else Inr (suspend i b (arrive_bar b c1 s)))"
  using assms
  by (simp add: exec_op_def syncBlockKernels_arrive_eq Let_def syncBlockKernels_leave_eq)

text \<open>The facts about a ready fiber that is about to synchronise.\<close>
lemma sync_facts:
  assumes inv: "block_inv prog n g s" and ok: "prog_ok prog"
    and i: "i < length (m_vFibersInBlock s)"
    and st: "f_status (m_vFibersInBlock s ! i) = Ready"
    and op: "prog ! f_pc (m_vFibersInBlock s ! i) = SyncBlockKernels"
  shows "m_mFibersToBarrier s (f_id (m_vFibersInBlock s ! i)) = Some (of_nat g)"
    and "0 < f_pc (m_vFibersInBlock s ! i)"
    and "suspended_count (m_vFibersInBlock s) < n"
    and "(if m_uiNumFibersToWaitFor (m_abarSyncFibers s (g mod 2)) = 0
          then m_uiNumKernelsPerBlock s
          else m_uiNumFibersToWaitFor (m_abarSyncFibers s (g mod 2))) - 1
         = of_nat (n - Suc (suspended_count (m_vFibersInBlock s)))"
    and "((of_nat (n - Suc (suspended_count (m_vFibersInBlock s))) :: size_t) = 0)
         = (Suc (suspended_count (m_vFibersInBlock s)) = n)"
proof -
  let ?fs = "m_vFibersInBlock s"
  let ?f = "?fs ! i"
  let ?k = "suspended_count ?fs"
  from inv have fok: "\<forall>f \<in> set ?fs. fiber_ok prog g f" and tab: "tables_ok prog s"
    and bars: "bars_ok n g s" and n: "n < 2 ^ 64" and len: "length ?fs + length (toSpawn s) = n"
    and N: "m_uiNumKernelsPerBlock s = of_nat n"
    by (simp_all add: block_inv_def)
  from fok i have "fiber_ok prog g ?f" by simp
  with st have lt: "f_pc ?f < length prog" and pg: "passed prog ?f = g"
    by (simp_all add: fiber_ok_def)
  show pc: "0 < f_pc ?f"
    using op ok by (cases "f_pc ?f = 0") (auto simp: prog_ok_def)
  with tab i pg show "m_mFibersToBarrier s (f_id ?f) = Some (of_nat g)"
    by (auto simp: tables_ok_def)
  have "suspended_count (?fs[i := ?f\<lparr>f_status := Suspended 0\<rparr>]) = Suc ?k"
    using suspended_count_update [OF i, of "?f\<lparr>f_status := Suspended 0\<rparr>"] st by simp
  moreover have "suspended_count (?fs[i := ?f\<lparr>f_status := Suspended 0\<rparr>]) \<le> length ?fs"
    using suspended_count_le [of "?fs[i := ?f\<lparr>f_status := Suspended 0\<rparr>]"] by simp
  ultimately have "Suc ?k \<le> length ?fs" by simp
  with len show kn: "?k < n" by simp
  from bars have c0: "m_uiNumFibersToWaitFor (m_abarSyncFibers s (g mod 2))
      = (if ?k = 0 then 0 else of_nat (n - ?k))"
    by (simp add: bars_ok_def Let_def)
  have nz: "(of_nat (n - ?k) :: size_t) \<noteq> 0"
    using kn n of_nat_size_t_zero [of "n - ?k"] by simp
  have "(if m_uiNumFibersToWaitFor (m_abarSyncFibers s (g mod 2)) = 0
          then m_uiNumKernelsPerBlock s
          else m_uiNumFibersToWaitFor (m_abarSyncFibers s (g mod 2))) = of_nat (n - ?k)"
    using c0 nz N by (cases "?k = 0") simp_all
  moreover have "(of_nat (n - ?k) :: size_t) - 1 = of_nat (n - ?k - 1)"
    using kn by (intro of_nat_size_t_pred) simp
  ultimately show "(if m_uiNumFibersToWaitFor (m_abarSyncFibers s (g mod 2)) = 0
          then m_uiNumKernelsPerBlock s
          else m_uiNumFibersToWaitFor (m_abarSyncFibers s (g mod 2))) - 1
         = of_nat (n - Suc ?k)"
    by (simp del: of_nat_diff)
  show "((of_nat (n - Suc ?k) :: size_t) = 0) = (Suc ?k = n)"
    using kn n of_nat_size_t_zero [of "n - Suc ?k"] by auto
qed

lemma tables_ok_nth:
  "tables_ok prog s =
     (distinct (map f_id (m_vFibersInBlock s))
      \<and> (\<forall>j < length (m_vFibersInBlock s).
            if f_pc (m_vFibersInBlock s ! j) = 0
            then m_mFibersToIndices s (f_id (m_vFibersInBlock s ! j)) = None
               \<and> m_mFibersToBarrier s (f_id (m_vFibersInBlock s ! j)) = None
            else m_mFibersToIndices s (f_id (m_vFibersInBlock s ! j))
                   = Some (f_arg (m_vFibersInBlock s ! j))
               \<and> m_mFibersToBarrier s (f_id (m_vFibersInBlock s ! j))
                   = Some (of_nat (passed prog (m_vFibersInBlock s ! j))))
      \<and> dom (m_mFibersToIndices s) \<subseteq> f_id ` set (m_vFibersInBlock s)
      \<and> dom (m_mFibersToBarrier s) \<subseteq> f_id ` set (m_vFibersInBlock s))"
  unfolding tables_ok_def all_set_conv_all_nth ..

text \<open>A ready fiber arrives at a barrier and is not the last one.\<close>
lemma block_inv_sync_suspend:
  assumes inv: "block_inv prog n g s" and ok: "prog_ok prog"
    and i: "i < length (m_vFibersInBlock s)"
    and st: "f_status (m_vFibersInBlock s ! i) = Ready"
    and op: "prog ! f_pc (m_vFibersInBlock s ! i) = SyncBlockKernels"
    and k: "Suc (suspended_count (m_vFibersInBlock s)) \<noteq> n"
  shows "exec_op prog i SyncBlockKernels s
           = Inr (suspend i (g mod 2) (arrive_bar (g mod 2)
                   (of_nat (n - Suc (suspended_count (m_vFibersInBlock s)))) s))"
    and "block_inv prog n g (suspend i (g mod 2) (arrive_bar (g mod 2)
                   (of_nat (n - Suc (suspended_count (m_vFibersInBlock s)))) s))"
proof -
  let ?fs = "m_vFibersInBlock s"
  let ?f = "?fs ! i"
  let ?k = "suspended_count ?fs"
  let ?b = "g mod 2"
  let ?c = "of_nat (n - Suc ?k) :: size_t"
  let ?s' = "suspend i ?b (arrive_bar ?b ?c s)"
  let ?f' = "?f\<lparr>f_status := Suspended ?b\<rparr>"
  note facts = sync_facts [OF inv ok i st op]
  from facts(5) k have cnz: "?c \<noteq> 0" by simp
  show "exec_op prog i SyncBlockKernels s = Inr ?s'"
    unfolding exec_sync_eq [OF facts(1)] Let_def unat_of_nat_mod2 facts(4)
    using cnz by simp
  from inv have fok: "\<forall>f \<in> set ?fs. fiber_ok prog g f" and tab: "tables_ok prog s"
    and bars: "bars_ok n g s"
    by (simp_all add: block_inv_def)
  from fok i have "fiber_ok prog g ?f" by simp
  with st have lt: "f_pc ?f < length prog" and pg: "passed prog ?f = g"
    by (simp_all add: fiber_ok_def)
  have new: "fiber_ok prog g ?f'"
    using lt pg op facts(2) by (simp add: fiber_ok_def passed_def)
  have fok': "\<forall>f \<in> set (?fs[i := ?f']). fiber_ok prog g f"
    using fok new by (auto dest: in_set_updateD)
  have k': "suspended_count (?fs[i := ?f']) = Suc ?k"
    using suspended_count_update [OF i, of ?f'] st by simp
  have bars': "bars_ok n g ?s'"
    using bars k' facts(3) k Suc_mod2_neq [of g] by (simp add: bars_ok_def Let_def)
  have ids: "map f_id (?fs[i := ?f']) = map f_id ?fs"
    using i by (simp add: map_f_id_update)
  have sids: "f_id ` set (?fs[i := ?f']) = f_id ` set ?fs"
    using set_f_id_update [OF i, of ?f'] by simp
  have tab': "tables_ok prog ?s'"
    using tab i unfolding tables_ok_nth
    by (simp add: ids sids nth_list_update passed_def)
  have run': "running_ok ?s'"
    by (simp add: running_ok_def)
  show "block_inv prog n g ?s'"
    using inv fok' bars' tab' run' by (simp add: block_inv_def)
qed

text \<open>A ready fiber arrives at a barrier as the last one.\<close>
lemma block_inv_sync_release:
  assumes inv: "block_inv prog n g s" and ok: "prog_ok prog"
    and i: "i < length (m_vFibersInBlock s)"
    and st: "f_status (m_vFibersInBlock s ! i) = Ready"
    and op: "prog ! f_pc (m_vFibersInBlock s ! i) = SyncBlockKernels"
    and k: "Suc (suspended_count (m_vFibersInBlock s)) = n"
  shows "exec_op prog i SyncBlockKernels s
           = Inr (advance prog i (set_phase (f_id (m_vFibersInBlock s ! i)) (of_nat (Suc g))
                   (notify_all (g mod 2) (arrive_bar (g mod 2) 0 s))))"
    and "block_inv prog n (Suc g)
           (advance prog i (set_phase (f_id (m_vFibersInBlock s ! i)) (of_nat (Suc g))
                   (notify_all (g mod 2) (arrive_bar (g mod 2) 0 s))))"
proof -
  let ?fs = "m_vFibersInBlock s"
  let ?f = "?fs ! i"
  let ?k = "suspended_count ?fs"
  let ?b = "g mod 2"
  let ?note = "\<lambda>f. if f_status f = Suspended ?b then f\<lparr>f_status := Notified ?b\<rparr> else f"
  let ?s' = "advance prog i (set_phase (f_id ?f) (of_nat (Suc g)) (notify_all ?b (arrive_bar ?b 0 s)))"
  let ?f' = "?f\<lparr>f_pc := Suc (f_pc ?f), f_status := (if length prog \<le> Suc (f_pc ?f) then Done else Ready)\<rparr>"
  note facts = sync_facts [OF inv ok i st op]
  from facts(5) k have c0: "(of_nat (n - Suc ?k) :: size_t) = 0" by simp
  show "exec_op prog i SyncBlockKernels s = Inr ?s'"
    unfolding exec_sync_eq [OF facts(1)] Let_def unat_of_nat_mod2 facts(4)
    using c0 by (simp add: add.commute)
  from inv have fok: "\<forall>f \<in> set ?fs. fiber_ok prog g f" and tab: "tables_ok prog s"
    and bars: "bars_ok n g s" and len: "length ?fs + length (toSpawn s) = n"
    by (simp_all add: block_inv_def)
  from fok i have "fiber_ok prog g ?f" by simp
  with st have lt: "f_pc ?f < length prog" and pg: "passed prog ?f = g"
    by (simp_all add: fiber_ok_def)
  have "suspended_count (?fs[i := ?f\<lparr>f_status := Suspended 0\<rparr>]) = Suc ?k"
    using suspended_count_update [OF i, of "?f\<lparr>f_status := Suspended 0\<rparr>"] st by simp
  moreover have "suspended_count (?fs[i := ?f\<lparr>f_status := Suspended 0\<rparr>]) \<le> length ?fs"
    using suspended_count_le [of "?fs[i := ?f\<lparr>f_status := Suspended 0\<rparr>]"] by simp
  ultimately have "Suc ?k \<le> length ?fs" by simp
  with len k have full: "length ?fs = n" by simp
  with len have ts: "toSpawn s = []" by simp
  have others: "f_status (?fs ! j) = Suspended ?b \<and> fiber_ok prog g (?fs ! j)"
    if j: "j < length ?fs" "j \<noteq> i" for j
  proof -
    from all_others_suspended [of ?fs i j] k full i st j
    have "is_suspended (f_status (?fs ! j))" by simp
    moreover from fok j have fj: "fiber_ok prog g (?fs ! j)" by simp
    ultimately show ?thesis
      by (cases "f_status (?fs ! j)") (simp_all add: fiber_ok_def)
  qed
  let ?fs' = "(map ?note ?fs)[i := ?f']"
  have fs': "m_vFibersInBlock ?s' = ?fs'"
    using i st by simp
  have nth': "?fs' ! j = (if j = i then ?f' else (?fs ! j)\<lparr>f_status := Notified ?b\<rparr>)"
    if "j < length ?fs" for j
    using that others [of j] by (simp add: nth_list_update)
  have pg': "passed prog ?f' = Suc g"
    using pg op lt by (simp add: passed_def syncs_take_Suc)
  have new: "fiber_ok prog (Suc g) ?f'"
    using pg' lt by (auto simp: fiber_ok_def)
  have fokn: "fiber_ok prog (Suc g) (?fs' ! j)" if j: "j < length ?fs" for j
  proof (cases "j = i")
    case True
    with new nth' [OF j] show ?thesis by simp
  next
    case False
    from others [OF j False] nth' [OF j] False show ?thesis
      by (auto simp: fiber_ok_def passed_def)
  qed
  then have fok': "\<forall>f \<in> set ?fs'. fiber_ok prog (Suc g) f"
    unfolding all_set_conv_all_nth by simp
  have "\<not> is_suspended (f_status (?fs' ! j))" if j: "j < length ?fs" for j
    using nth' [OF j] by simp
  then have "\<forall>f \<in> set ?fs'. \<not> is_suspended (f_status f)"
    unfolding all_set_conv_all_nth by simp
  then have k': "suspended_count ?fs' = 0"
    by (simp add: suspended_count_zero)
  from bars have b1: "m_uiNumFibersToWaitFor (m_abarSyncFibers s (Suc g mod 2)) = 0"
    by (simp add: bars_ok_def Let_def)
  have bars': "bars_ok n (Suc g) ?s'"
    unfolding bars_ok_def fs' k'
    using b1 Suc_mod2_neq [of g] by (simp add: Suc_Suc_mod2)
  have ids: "map f_id ?fs' = map f_id ?fs"
    by (rule nth_equalityI) (simp_all add: nth')
  then have sids: "f_id ` set ?fs' = f_id ` set ?fs"
    by (metis set_map)
  have dist: "distinct (map f_id ?fs)" using tab by (simp add: tables_ok_def)
  have other: "f_id (?fs ! j) \<noteq> f_id ?f" if "j < length ?fs" "j \<noteq> i" for j
    using distinct_ids_neq [OF dist i that] .
  have mem: "f_id ?f \<in> f_id ` set ?fs" using i by simp
  have tab': "tables_ok prog ?s'"
    unfolding tables_ok_nth fs' ids sids
    using tab other pg' facts(2) mem unfolding tables_ok_nth
    by (auto simp: nth' passed_def)
  have run': "running_ok ?s'"
    using i by (simp add: running_ok_def)
  show "block_inv prog n (Suc g) ?s'"
    using inv fok' bars' tab' run' ts unfolding block_inv_def fs' by simp
qed

text \<open>A notified fiber runs again.\<close>
lemma block_inv_notified:
  assumes inv: "block_inv prog n g s"
    and i: "i < length (m_vFibersInBlock s)"
    and st: "f_status (m_vFibersInBlock s ! i) = Notified b"
  shows "resume prog i s
           = Inr (advance prog i (set_phase (f_id (m_vFibersInBlock s ! i)) (of_nat g) s))"
    and "block_inv prog n g
           (advance prog i (set_phase (f_id (m_vFibersInBlock s ! i)) (of_nat g) s))"
    and "b = Suc g mod 2"
    and "m_mFibersToBarrier s (f_id (m_vFibersInBlock s ! i)) = Some (of_nat (g - 1))"
    and "0 < g"
proof -
  let ?fs = "m_vFibersInBlock s"
  let ?f = "?fs ! i"
  let ?s' = "advance prog i (set_phase (f_id ?f) (of_nat g) s)"
  let ?f' = "?f\<lparr>f_pc := Suc (f_pc ?f), f_status := (if length prog \<le> Suc (f_pc ?f) then Done else Ready)\<rparr>"
  from inv have fok: "\<forall>f \<in> set ?fs. fiber_ok prog g f" and tab: "tables_ok prog s"
    and bars: "bars_ok n g s"
    by (simp_all add: block_inv_def)
  from fok i have "fiber_ok prog g ?f" by simp
  with st have lt: "f_pc ?f < length prog" and op: "prog ! f_pc ?f = SyncBlockKernels"
    and pc: "0 < f_pc ?f" and pg: "Suc (passed prog ?f) = g" and b: "b = passed prog ?f mod 2"
    by (simp_all add: fiber_ok_def)
  from pg show "0 < g" by simp
  from b pg show b': "b = Suc g mod 2" using Suc_Suc_mod2 [of "passed prog ?f"] by simp
  from bars have b1: "m_uiNumFibersToWaitFor (m_abarSyncFibers s (Suc g mod 2)) = 0"
    by (simp add: bars_ok_def Let_def)
  from tab i pc have ent: "m_mFibersToBarrier s (f_id ?f) = Some (of_nat (passed prog ?f))"
    by (auto simp: tables_ok_def)
  with pg show "m_mFibersToBarrier s (f_id ?f) = Some (of_nat (g - 1))" by auto
  have "(of_nat (passed prog ?f) :: size_t) + 1 = of_nat g"
    using pg by auto
  then show "resume prog i s = Inr ?s'"
    using st b1 b' ent by (simp add: resume_def wait_predicate_def syncBlockKernels_leave_eq)
  have pg': "passed prog ?f' = g"
    using pg op lt by (simp add: passed_def syncs_take_Suc)
  have new: "fiber_ok prog g ?f'"
    using pg' lt by (auto simp: fiber_ok_def)
  have fok': "\<forall>f \<in> set (?fs[i := ?f']). fiber_ok prog g f"
    using fok new by (auto dest: in_set_updateD)
  have k: "suspended_count (?fs[i := ?f']) = suspended_count ?fs"
    using suspended_count_update [OF i, of ?f'] st by simp
  have bars': "bars_ok n g ?s'"
    using bars k by (simp add: bars_ok_def)
  have ids: "map f_id (?fs[i := ?f']) = map f_id ?fs"
    using i by (simp add: map_f_id_update)
  have sids: "f_id ` set (?fs[i := ?f']) = f_id ` set ?fs"
    using set_f_id_update [OF i, of ?f'] by simp
  have dist: "distinct (map f_id ?fs)" using tab by (simp add: tables_ok_def)
  have other: "f_id (?fs ! j) \<noteq> f_id ?f" if "j < length ?fs" "j \<noteq> i" for j
    using distinct_ids_neq [OF dist i that] .
  have mem: "f_id ?f \<in> f_id ` set ?fs" using i by simp
  have fs': "m_vFibersInBlock ?s' = ?fs[i := ?f']" by simp
  have tab': "tables_ok prog ?s'"
    unfolding tables_ok_nth fs' ids sids
    using tab other pg' pc mem i unfolding tables_ok_nth
    by (auto simp: nth_list_update)
  have run': "running_ok ?s'"
    using i by (simp add: running_ok_def)
  show "block_inv prog n g ?s'"
    using inv fok' bars' tab' run' by (simp add: block_inv_def)
qed

lemma block_inv_plain:
  assumes inv: "block_inv prog n g s" and ok: "prog_ok prog"
    and i: "i < length (m_vFibersInBlock s)"
    and st: "f_status (m_vFibersInBlock s ! i) = Ready"
    and op: "prog ! f_pc (m_vFibersInBlock s ! i) \<noteq> SyncBlockKernels"
      "prog ! f_pc (m_vFibersInBlock s ! i) \<noteq> Register"
    and eq: "core_eq s t"
  shows "block_inv prog n g (advance prog i t)"
proof -
  from op(2) ok have pc: "0 < f_pc (m_vFibersInBlock s ! i)"
    by (cases "f_pc (m_vFibersInBlock s ! i) = 0") (auto simp: prog_ok_def)
  from eq have fs: "m_vFibersInBlock t = m_vFibersInBlock s" by (simp add: core_eq_def)
  from inv eq have "block_inv prog n g t" by (simp add: block_inv_core_eq)
  from block_inv_advance [OF this, of i] i st op(1) pc fs show ?thesis by simp
qed

lemma core_eq_simps [simp]:
  "core_eq s (emplace_back_if_master idFiber s)"
  "core_eq s (record_entry e s)"
  by (simp_all add: core_eq_def emplace_back_if_master_def record_entry_def)

lemma getIdxBlockKernel_registered:
  assumes inv: "block_inv prog n g s" and ok: "prog_ok prog"
    and i: "i < length (m_vFibersInBlock s)"
    and pc: "0 < f_pc (m_vFibersInBlock s ! i)"
  shows "getIdxBlockKernel (f_id (m_vFibersInBlock s ! i)) s = Inr (f_arg (m_vFibersInBlock s ! i))"
  using inv i pc by (auto simp: block_inv_def tables_ok_def getIdxBlockKernel_def)

text \<open>Every event keeps the invariant, or moves on to the next round of the barriers.\<close>
lemma block_inv_step:
  assumes inv: "block_inv prog n g s" and ok: "prog_ok prog"
    and en: "enabled prog e s" and step: "step prog e s = Inr s'"
  shows "block_inv prog n g s' \<or> block_inv prog n (Suc g) s'"
proof (cases e)
  case (Spawn idFiber)
  with block_inv_spawn [OF inv ok, of idFiber] en step show ?thesis by (auto simp: step_def)
next
  case (Resume i)
  let ?f = "m_vFibersInBlock s ! i"
  from en Resume have i: "i < length (m_vFibersInBlock s)" and cr: "can_run prog ?f"
    by (simp_all add: enabled_def)
  from step Resume have res: "resume prog i s = Inr s'" by (simp add: step_def)
  show ?thesis
  proof (cases "f_status ?f")
    case Ready
    with res have ex: "exec_op prog i (prog ! f_pc ?f) s = Inr s'" by (simp add: resume_def)
    show ?thesis
    proof (cases "prog ! f_pc ?f")
      case Register
      with ex block_inv_register [OF inv ok i Ready Register] show ?thesis
        by (simp add: exec_op_def Let_def)
    next
      case SyncBlockKernels
      show ?thesis
      proof (cases "Suc (suspended_count (m_vFibersInBlock s)) = n")
        case True
        from block_inv_sync_release [OF inv ok i Ready SyncBlockKernels True] ex SyncBlockKernels
        show ?thesis by simp
      next
        case False
        from block_inv_sync_suspend [OF inv ok i Ready SyncBlockKernels False] ex SyncBlockKernels
        show ?thesis by simp
      qed
    next
      case EmplaceBack
      with ex block_inv_plain [OF inv ok i Ready, of "emplace_back_if_master (f_id ?f) s"]
      show ?thesis by (simp add: exec_op_def Let_def)
    next
      case (ReturnBack sz m)
      with ex block_inv_plain [OF inv ok i Ready]
      show ?thesis by (auto simp: exec_op_def Let_def split: sum.splits)
    next
      case GetIdxBlockKernel
      with ex block_inv_plain [OF inv ok i Ready]
      show ?thesis by (auto simp: exec_op_def Let_def split: sum.splits)
    next
      case GetBlockSharedExternMem
      with ex block_inv_plain [OF inv ok i Ready]
      show ?thesis by (auto simp: exec_op_def Let_def split: sum.splits)
    qed
  next
    case (Notified b)
    from block_inv_notified(1,2) [OF inv i Notified] res show ?thesis by simp
  next
    case (Suspended b)
    with cr show ?thesis by (simp add: can_run_def)
  next
    case Done
    with cr show ?thesis by (simp add: can_run_def)
  qed
qed

text \<open>No assertion fails.\<close>
lemma step_no_assertion:
  assumes inv: "block_inv prog n g s" and ok: "prog_ok prog"
    and en: "enabled prog e s" and step: "step prog e s = Inl err"
  shows "err = EmptyVectorBack \<and> m_vvuiSharedMem s = []
         \<and> (\<exists>i sz m. e = Resume i \<and> prog ! f_pc (m_vFibersInBlock s ! i) = ReturnBack sz m)"
proof (cases e)
  case (Spawn idFiber)
  with step show ?thesis by (simp add: step_def)
next
  case (Resume i)
  let ?f = "m_vFibersInBlock s ! i"
  from en Resume have i: "i < length (m_vFibersInBlock s)" and cr: "can_run prog ?f"
    by (simp_all add: enabled_def)
  from step Resume have res: "resume prog i s = Inl err" by (simp add: step_def)
  show ?thesis
  proof (cases "f_status ?f")
    case Ready
    with res have ex: "exec_op prog i (prog ! f_pc ?f) s = Inl err" by (simp add: resume_def)
    show ?thesis
    proof (cases "prog ! f_pc ?f")
      case Register
      with ex show ?thesis by (simp add: exec_op_def Let_def)
    next
      case SyncBlockKernels
      show ?thesis
      proof (cases "Suc (suspended_count (m_vFibersInBlock s)) = n")
        case True
        from block_inv_sync_release(1) [OF inv ok i Ready SyncBlockKernels True] ex SyncBlockKernels
        show ?thesis by simp
      next
        case False
        from block_inv_sync_suspend(1) [OF inv ok i Ready SyncBlockKernels False] ex SyncBlockKernels
        show ?thesis by simp
      qed
    next
      case EmplaceBack
      with ex show ?thesis by (simp add: exec_op_def Let_def)
    next
      case (ReturnBack sz m)
      with ex Resume show ?thesis
        by (auto simp: exec_op_def Let_def return_back_def split: sum.splits if_splits)
    next
      case GetIdxBlockKernel
      with ok have "0 < f_pc ?f" by (cases "f_pc ?f = 0") (auto simp: prog_ok_def)
      from getIdxBlockKernel_registered [OF inv ok i this] ex GetIdxBlockKernel
      show ?thesis by (simp add: exec_op_def Let_def)
    next
      case GetBlockSharedExternMem
      with ex show ?thesis by (simp add: exec_op_def Let_def)
    qed
  next
    case (Notified b)
    from block_inv_notified(1) [OF inv i Notified] res show ?thesis by simp
  next
    case (Suspended b)
    with res show ?thesis by (simp add: resume_def)
  next
    case Done
    with res show ?thesis by (simp add: resume_def)
  qed
qed

subsection \<open>The states a block can reach\<close>


lemma syncs_fiberKernel: "syncs (fiberKernel k) = 2 + syncs (concat (map kernel_op_code k))"
  by (simp add: fiberKernel_def syncs_def)

lemma prog_ok_fiberKernel: "prog_ok (fiberKernel k)"
  by (simp add: prog_ok_def syncs_fiberKernel) (simp add: fiberKernel_def)

lemma length_concat_replicate_like:
  "length (concat (map (\<lambda>y. map (f y) [0..<a]) [0..<b])) = a * b"
  by (induction b) simp_all

lemma length_indices3: "length (indices3 v) = prod3 v"
proof -
  obtain x y z where v: "v = (x, y, z)" by (cases v)
  have "length (concat (map (\<lambda>z. concat (map (\<lambda>y. map (\<lambda>x. (x, y, z)) [0..<x]) [0..<y])) [0..<z]))
      = x * y * z"
    by (induction z) (simp_all add: length_concat_replicate_like)
  then show ?thesis by (simp add: v indices3_def prod3_def)
qed

lemma mod2_less: "(g::nat) mod 2 = 0 \<or> g mod 2 = 1"
  by presburger

lemma block_inv_begin:
  assumes "idle s" "m_uiNumKernelsPerBlock s = of_nat (prod3 sz)" "prod3 sz < 2 ^ 64"
  shows "block_inv prog (prod3 sz) 0 (begin_block sz b s)"
  using assms
  by (simp add: block_inv_def idle_def begin_block_def length_indices3 bars_ok_def
      tables_ok_def running_ok_def suspended_count_def)

lemma run_events_inv:
  assumes "block_inv prog n g s" "prog_ok prog"
  shows "run_events prog es s = Finished s' \<Longrightarrow> \<exists>g'. block_inv prog n g' s'"
    and "run_events prog es s = Failed err s1 \<Longrightarrow> err = EmptyVectorBack"
  using assms(1)
proof (induction es arbitrary: s g)
  case Nil
  { case 1 then show ?case by auto }
  { case 2 then show ?case by simp }
next
  case (Cons e es)
  { case 1
    then obtain s2 where en: "enabled prog e s" and st: "step prog e s = Inr s2"
      and run: "run_events prog es s2 = Finished s'"
      by (auto split: if_splits sum.splits)
    from block_inv_step [OF 1(2) assms(2) en st] Cons.IH(1) [OF run] show ?case by blast }
  { case 2
    then have en: "enabled prog e s" by (auto split: if_splits)
    show ?case
    proof (cases "step prog e s")
      case (Inl err')
      with 2 en have "err' = err" by simp
      with step_no_assertion [OF 2(2) assms(2) en Inl] show ?thesis by simp
    next
      case (Inr s2)
      with 2 en have run: "run_events prog es s2 = Failed err s1" by simp
      from block_inv_step [OF 2(2) assms(2) en Inr] Cons.IH(2) [OF run] show ?thesis by blast
    qed }
qed

lemma run_fibers_inv:
  assumes "block_inv prog n g s" "prog_ok prog"
  shows "run_fibers prog es s = Finished (s', rest) \<Longrightarrow> (\<exists>g'. block_inv prog n g' s') \<and> all_joined s'"
    and "run_fibers prog es s = Failed err s1 \<Longrightarrow> err = EmptyVectorBack"
  using assms(1)
proof (induction es arbitrary: s g)
  case Nil
  { case 1 then show ?case by (auto split: if_splits) }
  { case 2 then show ?case by (simp split: if_splits) }
next
  case (Cons e es)
  { case 1
    show ?case
    proof (cases "all_joined s")
      case True
      with 1 show ?thesis by auto
    next
      case False
      with 1 obtain s2 where en: "enabled prog e s" and st: "step prog e s = Inr s2"
        and run: "run_fibers prog es s2 = Finished (s', rest)"
        by (auto split: if_splits sum.splits)
      from block_inv_step [OF 1(2) assms(2) en st] Cons.IH(1) [OF run] show ?thesis by blast
    qed }
  { case 2
    then have nj: "\<not> all_joined s" and en: "enabled prog e s" by (auto split: if_splits)
    show ?case
    proof (cases "step prog e s")
      case (Inl err')
      with 2 en nj have "err' = err" by simp
      with step_no_assertion [OF 2(2) assms(2) en Inl] show ?thesis by simp
    next
      case (Inr s2)
      with 2 en nj have run: "run_fibers prog es s2 = Failed err s1" by simp
      from block_inv_step [OF 2(2) assms(2) en Inr] Cons.IH(2) [OF run] show ?thesis by blast
    qed }
qed

lemma idle_end_block:
  assumes inv: "block_inv prog n g s" and j: "all_joined s"
  shows "idle (end_block s)" and "m_uiNumKernelsPerBlock (end_block s) = of_nat n"
proof -
  from j have "\<forall>f \<in> set (m_vFibersInBlock s). \<not> is_suspended (f_status f)"
    by (auto simp: all_joined_def list_all_iff)
  then have "suspended_count (m_vFibersInBlock s) = 0" by (simp add: suspended_count_zero)
  with inv have "m_uiNumFibersToWaitFor (m_abarSyncFibers s (g mod 2)) = 0"
    "m_uiNumFibersToWaitFor (m_abarSyncFibers s (Suc g mod 2)) = 0"
    by (simp_all add: block_inv_def bars_ok_def)
  then have "m_uiNumFibersToWaitFor (m_abarSyncFibers s 0) = 0
      \<and> m_uiNumFibersToWaitFor (m_abarSyncFibers s 1) = 0"
    using mod2_less [of g] by (auto simp: mod_Suc)
  then show "idle (end_block s)" by (simp add: idle_def end_block_def)
  from inv show "m_uiNumKernelsPerBlock (end_block s) = of_nat n"
    by (simp add: block_inv_def end_block_def)
qed

lemma blocks_loop_inv:
  assumes "prog_ok prog" "prod3 sz < 2 ^ 64"
  shows "idle s \<Longrightarrow> m_uiNumKernelsPerBlock s = of_nat (prod3 sz) \<Longrightarrow>
         blocks_loop prog sz bs es s = Finished (s', rest) \<Longrightarrow> idle s'"
    and "idle s \<Longrightarrow> m_uiNumKernelsPerBlock s = of_nat (prod3 sz) \<Longrightarrow>
         blocks_loop prog sz bs es s = Failed err s1 \<Longrightarrow> err = EmptyVectorBack"
proof (induction bs arbitrary: s es)
  case Nil
  { case 1 then show ?case by simp }
  { case 2 then show ?case by simp }
next
  case (Cons b bs)
  { case 1
    note inv = block_inv_begin [OF 1(1,2) assms(2), of prog b]
    from 1(3) obtain s2 es2 where run: "run_fibers prog es (begin_block sz b s) = Finished (s2, es2)"
      and loop: "blocks_loop prog sz bs es2 (end_block s2) = Finished (s', rest)"
      by (auto split: outcome.splits)
    from run_fibers_inv(1) [OF inv assms(1) run] obtain g' where
      "block_inv prog (prod3 sz) g' s2" "all_joined s2" by blast
    from idle_end_block [OF this] Cons.IH(1) [OF _ _ loop] show ?case by simp }
  { case 2
    note inv = block_inv_begin [OF 2(1,2) assms(2), of prog b]
    show ?case
    proof (cases "run_fibers prog es (begin_block sz b s)")
      case (Finished p)
      obtain s2 es2 where p: "p = (s2, es2)" by (cases p)
      with Finished 2(3) have loop: "blocks_loop prog sz bs es2 (end_block s2) = Failed err s1"
        by simp
      from run_fibers_inv(1) [OF inv assms(1)] Finished p obtain g' where
        "block_inv prog (prod3 sz) g' s2" "all_joined s2" by blast
      from idle_end_block [OF this] Cons.IH(2) [OF _ _ loop] show ?thesis by simp
    next
      case (Failed err' s3)
      with 2(3) have "err' = err" by simp
      with run_fibers_inv(2) [OF inv assms(1)] Failed show ?thesis by simp
    next
      case (Unscheduled s4)
      with 2(3) show ?thesis by simp
    qed }
qed

lemma execute_no_assertion:
  assumes "idle s"
  shows "execute es k workSize s \<noteq> Failed AssertionFailed s1"
proof
  assume f: "execute es k workSize s = Failed AssertionFailed s1"
  let ?sz = "sizeBlockKernels workSize"
  from f have le: "prod3 ?sz \<le> 1024"
    by (auto simp: execute_def getSizeBlockKernelsLinear_def getSizeBlockKernelsLinearMax_def
        Let_def split: if_splits)
  then have lt: "prod3 ?sz < 2 ^ 64" by simp
  let ?s3 = "s\<lparr>m_workSize := workSize, m_uiNumKernelsPerBlock := of_nat (prod3 ?sz),
      m_vuiExternalSharedMem := resize (getBlockSharedExternMemSizeBytes k ?sz) (m_vuiExternalSharedMem s)\<rparr>"
  from f le have "grid_loop (fiberKernel (body k)) ?sz (sizeGridBlocks workSize) es ?s3
      = Failed AssertionFailed s1"
    by (simp add: execute_def getSizeBlockKernelsLinear_def getSizeBlockKernelsLinearMax_def Let_def)
  then have g: "blocks_loop (fiberKernel (body k)) ?sz (indices3 (sizeGridBlocks workSize)) es ?s3
      = Failed AssertionFailed s1"
    by (simp only: grid_loop_Failed)
  from assms have "idle ?s3" by (simp add: idle_def)
  from blocks_loop_inv(2) [OF prog_ok_fiberKernel lt this _ g] show False by simp
qed

lemma map_f_arg_update:
  "f_arg f = f_arg (fs ! i) \<Longrightarrow> map f_arg (fs[i := f]) = map f_arg fs"
  by (cases "i < length fs") (simp_all add: map_update list_update_same_conv list_update_beyond)

lemma map_f_arg_notify:
  "map f_arg (map (\<lambda>f. if f_status f = Suspended b then f\<lparr>f_status := Notified b\<rparr> else f) fs)
     = map f_arg fs"
  by (induction fs) simp_all

lemma step_frame:
  assumes "step prog e s = Inr s'" "enabled prog e s"
  shows "m_v3uiGridBlockIdx s' = m_v3uiGridBlockIdx s"
    and "m_workSize s' = m_workSize s"
    and "m_uiNumKernelsPerBlock s' = m_uiNumKernelsPerBlock s"
    and "m_vuiExternalSharedMem s' = m_vuiExternalSharedMem s"
    and "map f_arg (m_vFibersInBlock s') @ toSpawn s' = map f_arg (m_vFibersInBlock s) @ toSpawn s"
  using assms
  by (auto simp: step_def spawn_def enabled_def resume_def exec_op_def Let_def
      syncBlockKernels_arrive_def syncBlockKernels_leave_def wait_arrive_def
      emplace_back_if_master_def record_entry_def map_f_arg_update map_f_arg_notify
      split: event.splits list.splits fiber_status.splits lane_op.splits sum.splits
        option.splits if_splits prod.splits)

lemmas eval_defs = begin_block_def initial_def indices3_def enabled_def step_def spawn_def resume_def
  exec_op_def can_run_def alive_ids_def fiberKernel_def register_fiber_def map_insert_def
  syncBlockKernels_arrive_def syncBlockKernels_leave_def getNumFibersToWaitFor_def reset_def
  wait_arrive_def wait_predicate_def notify_all_def advance_def suspend_def set_fiber_def
  record_entry_def getIdxBlockKernel_def getIdxGridBlock_def emplace_back_if_master_def
  return_back_def getBlockSharedExternMem_def Let_def

lemma ev1:
  "(case run_events (fiberKernel [RecordIdxBlockKernel])
      [Spawn 5, Resume 0, Resume 0, Spawn 6, Resume 1, Resume 1]
      (begin_block (2, 1, 1) (0, 0, 0) (initial\<lparr>m_uiNumKernelsPerBlock := 2\<rparr>)) of
      Finished s \<Rightarrow> 1 < length (m_vFibersInBlock s) \<and> 0 < f_pc (m_vFibersInBlock s ! 1)
         \<and> f_id (m_vFibersInBlock s ! 1) = 6
    | _ \<Rightarrow> False)"
  by (simp add: eval_defs upt_rec)

lemma run_events_frame:
  "run_events prog es s = Finished s' \<Longrightarrow>
   m_v3uiGridBlockIdx s' = m_v3uiGridBlockIdx s
   \<and> m_workSize s' = m_workSize s
   \<and> m_uiNumKernelsPerBlock s' = m_uiNumKernelsPerBlock s
   \<and> m_vuiExternalSharedMem s' = m_vuiExternalSharedMem s
   \<and> map f_arg (m_vFibersInBlock s') @ toSpawn s' = map f_arg (m_vFibersInBlock s) @ toSpawn s"
proof (induction es arbitrary: s)
  case Nil
  then show ?case by simp
next
  case (Cons e es)
  then obtain s2 where en: "enabled prog e s" and st: "step prog e s = Inr s2"
    and run: "run_events prog es s2 = Finished s'"
    by (auto split: if_splits sum.splits)
  from step_frame [OF st en] Cons.IH [OF run] show ?case by simp
qed

lemma block_reachable:
  assumes idle: "idle s0"
    and n: "m_uiNumKernelsPerBlock s0 = of_nat (prod3 sz)" "prod3 sz \<le> getSizeBlockKernelsLinearMax"
    and run: "run_events (fiberKernel k) es (begin_block sz b s0) = Finished s"
  shows "\<exists>g. block_inv (fiberKernel k) (prod3 sz) g s"
    and "map f_arg (m_vFibersInBlock s) @ toSpawn s = indices3 sz"
    and "m_v3uiGridBlockIdx s = b"
    and "m_vuiExternalSharedMem s = m_vuiExternalSharedMem s0"
proof -
  from n(2) have lt: "prod3 sz < 2 ^ 64" by (simp add: getSizeBlockKernelsLinearMax_def)
  from run_events_inv(1) [OF block_inv_begin [OF idle n(1) lt] prog_ok_fiberKernel run]
  show "\<exists>g. block_inv (fiberKernel k) (prod3 sz) g s" .
  from run_events_frame [OF run] idle
  show "map f_arg (m_vFibersInBlock s) @ toSpawn s = indices3 sz" "m_v3uiGridBlockIdx s = b"
    "m_vuiExternalSharedMem s = m_vuiExternalSharedMem s0"
    by (simp_all add: begin_block_def idle_def)
qed

text \<open>
  C8. In every state that the fibers of a block can reach from the start of the block,
  under any scheduling, a fiber that has run the entry of \<open>fiberKernel\<close> (so every fiber
  that is in the kernel body) gets from \<open>getIdxBlockKernel\<close> the index it was created
  with, which is the index of the loops at its creation; no event that can happen next
  fails an assertion, and \<open>execute\<close> as a whole never fails with a failed assertion.
\<close>
theorem getIdxBlockKernel_returns_registered_index:
  assumes idle: "idle s0"
    and n: "m_uiNumKernelsPerBlock s0 = of_nat (prod3 sz)" "prod3 sz \<le> getSizeBlockKernelsLinearMax"
    and run: "run_events (fiberKernel k) es (begin_block sz b s0) = Finished s"
    and i: "i < length (m_vFibersInBlock s)"
    and pc: "0 < f_pc (m_vFibersInBlock s ! i)"
  shows "getIdxBlockKernel (f_id (m_vFibersInBlock s ! i)) s = Inr (f_arg (m_vFibersInBlock s ! i))
    \<and> f_arg (m_vFibersInBlock s ! i) = indices3 sz ! i
    \<and> (\<forall>e. enabled (fiberKernel k) e s \<longrightarrow> step (fiberKernel k) e s \<noteq> Inl AssertionFailed)
    \<and> (\<forall>es' k' workSize s1. execute es' k' workSize s0 \<noteq> Failed AssertionFailed s1)"
proof -
  from block_reachable [OF idle n run] obtain g where
    inv: "block_inv (fiberKernel k) (prod3 sz) g s"
    and args: "map f_arg (m_vFibersInBlock s) @ toSpawn s = indices3 sz"
    by blast
  have a: "getIdxBlockKernel (f_id (m_vFibersInBlock s ! i)) s = Inr (f_arg (m_vFibersInBlock s ! i))"
    by (rule getIdxBlockKernel_registered [OF inv prog_ok_fiberKernel i pc])
  have "indices3 sz ! i = (map f_arg (m_vFibersInBlock s) @ toSpawn s) ! i"
    by (simp add: args)
  with i have b: "f_arg (m_vFibersInBlock s ! i) = indices3 sz ! i"
    by (simp add: nth_append)
  have c: "step (fiberKernel k) e s \<noteq> Inl AssertionFailed" if "enabled (fiberKernel k) e s" for e
    using step_no_assertion [OF inv prog_ok_fiberKernel that] by auto
  have d: "execute es' k' workSize s0 \<noteq> Failed AssertionFailed s1" for es' k' workSize s1
    by (rule execute_no_assertion [OF idle])
  from a b c d show ?thesis by blast
qed

theorem getIdxBlockKernel_returns_registered_index_witness:
  "\<exists>s. run_events (fiberKernel [RecordIdxBlockKernel])
          [Spawn 5, Resume 0, Resume 0, Spawn 6, Resume 1, Resume 1]
          (begin_block (2, 1, 1) (0, 0, 0) (initial\<lparr>m_uiNumKernelsPerBlock := 2\<rparr>)) = Finished s
       \<and> idle (initial\<lparr>m_uiNumKernelsPerBlock := 2\<rparr>)
       \<and> 1 < length (m_vFibersInBlock s) \<and> 0 < f_pc (m_vFibersInBlock s ! 1)
       \<and> f_id (m_vFibersInBlock s ! 1) = 6
       \<and> getIdxBlockKernel 6 s = Inr (1, 0, 0)"
proof -
  let ?s0 = "initial\<lparr>m_uiNumKernelsPerBlock := 2\<rparr>"
  let ?r = "run_events (fiberKernel [RecordIdxBlockKernel])
      [Spawn 5, Resume 0, Resume 0, Spawn 6, Resume 1, Resume 1]
      (begin_block (2, 1, 1) (0, 0, 0) ?s0)"
  have "case ?r of
      Finished s \<Rightarrow> 1 < length (m_vFibersInBlock s) \<and> 0 < f_pc (m_vFibersInBlock s ! 1)
         \<and> f_id (m_vFibersInBlock s ! 1) = 6
    | _ \<Rightarrow> False"
    by (simp add: eval_defs upt_rec)
  then obtain s where run: "?r = Finished s" and i: "1 < length (m_vFibersInBlock s)"
    and pc: "0 < f_pc (m_vFibersInBlock s ! 1)" and id: "f_id (m_vFibersInBlock s ! 1) = 6"
    by (cases ?r) simp_all
  have idle: "idle ?s0" by (simp add: idle_def initial_def)
  have n: "m_uiNumKernelsPerBlock ?s0 = of_nat (prod3 (2, 1, 1))"
    "prod3 (2, 1, 1) \<le> getSizeBlockKernelsLinearMax"
    by (simp_all add: prod3_def getSizeBlockKernelsLinearMax_def)
  have ix: "indices3 (2, 1, 1) ! 1 = (1, 0, 0)"
    by (simp add: indices3_def upt_rec)
  from getIdxBlockKernel_returns_registered_index [OF idle n run i pc] id ix
  have "getIdxBlockKernel 6 s = Inr (1, 0, 0)" by simp
  with run idle i pc id show ?thesis by blast
qed

section \<open>Block shared memory\<close>

lemmas eval_execute_defs = execute_def grid_loop_def vec_set_def getSizeBlockKernelsLinear_def prod3_def
  getSizeBlockKernelsLinearMax_def resize_def all_joined_def end_block_def

text \<open>
  C1, at the input of one block of two kernels whose body is
  \<open>allocBlockSharedMem<T, 4>\<close> with \<open>sizeof(T) = 4\<close>, under the scheduling in
  which a new fiber runs at once: \<open>execute\<close> returns, and each of the two kernels wrote
  that it asked for 16 bytes and got the address of the buffer at position 0, which holds
  0 bytes.
\<close>
theorem allocBlockSharedMem_buffer_is_empty:
  "\<exists>s. execute
          [Spawn 5, Resume 0, Resume 0, Spawn 6, Resume 1, Resume 1, Resume 1,
           Resume 0, Resume 0, Resume 0, Resume 0, Resume 1, Resume 1, Resume 1,
           Resume 1, Resume 1, Resume 0, Resume 0, Resume 0, Resume 1]
          \<lparr>body = [AllocBlockSharedMem 4 4], getBlockSharedExternMemSizeBytes = (\<lambda>v. 0)\<rparr>
          \<lparr>sizeGridBlocks = (1, 1, 1), sizeBlockKernels = (2, 1, 1)\<rparr> initial
        = Finished (s, [])
      \<and> recorded s = [RecAlloc (0, 0, 0) 16 0 0, RecAlloc (0, 0, 0) 16 0 0]"
proof -
  let ?r = "execute
          [Spawn 5, Resume 0, Resume 0, Spawn 6, Resume 1, Resume 1, Resume 1,
           Resume 0, Resume 0, Resume 0, Resume 0, Resume 1, Resume 1, Resume 1,
           Resume 1, Resume 1, Resume 0, Resume 0, Resume 0, Resume 1]
          \<lparr>body = [AllocBlockSharedMem 4 4], getBlockSharedExternMemSizeBytes = (\<lambda>v. 0)\<rparr>
          \<lparr>sizeGridBlocks = (1, 1, 1), sizeBlockKernels = (2, 1, 1)\<rparr> initial"
  have "case ?r of
      Finished (s, rest) \<Rightarrow>
        rest = [] \<and> recorded s = [RecAlloc (0, 0, 0) 16 0 0, RecAlloc (0, 0, 0) 16 0 0]
    | _ \<Rightarrow> False"
    by (simp add: eval_execute_defs eval_defs upt_rec)
  then show ?thesis by (cases ?r) auto
qed

text \<open>
  C2, at the input of a grid of two blocks of one kernel each, with an external shared
  memory of 16 bytes per block, and a kernel body that reads the external shared memory:
  \<open>execute\<close> returns; the kernel of the first block got a buffer of 16 bytes, the
  kernel of the second block one of 0 bytes.
\<close>
theorem external_shared_memory_of_second_block_is_empty:
  "\<exists>s. execute
          [Spawn 5, Resume 0, Resume 0, Resume 0, Resume 0,
           Spawn 5, Resume 0, Resume 0, Resume 0, Resume 0]
          \<lparr>body = [RecordBlockSharedExternMem], getBlockSharedExternMemSizeBytes = (\<lambda>v. 16)\<rparr>
          \<lparr>sizeGridBlocks = (2, 1, 1), sizeBlockKernels = (1, 1, 1)\<rparr> initial
        = Finished (s, [])
      \<and> recorded s = [RecExtern (0, 0, 0) 16, RecExtern (1, 0, 0) 0]"
proof -
  let ?r = "execute
          [Spawn 5, Resume 0, Resume 0, Resume 0, Resume 0,
           Spawn 5, Resume 0, Resume 0, Resume 0, Resume 0]
          \<lparr>body = [RecordBlockSharedExternMem], getBlockSharedExternMemSizeBytes = (\<lambda>v. 16)\<rparr>
          \<lparr>sizeGridBlocks = (2, 1, 1), sizeBlockKernels = (1, 1, 1)\<rparr> initial"
  have "case ?r of
      Finished (s, rest) \<Rightarrow>
        rest = [] \<and> recorded s = [RecExtern (0, 0, 0) 16, RecExtern (1, 0, 0) 0]
    | _ \<Rightarrow> False"
    by (simp add: eval_execute_defs eval_defs upt_rec)
  then show ?thesis by (cases ?r) auto
qed

lemma instantiate_zero:
  "AllocBlockSharedMem sz 0 \<in> set ops \<Longrightarrow>
   instantiate ops = Some (StaticAssertFailed
     ''The number of elements to allocate in block shared memory must not be zero!'')"
proof (induction ops rule: instantiate.induct)
  case (2 sz' n ops)
  then show ?case
    by (cases "n = 0") (auto simp: allocBlockSharedMem_static_assert_def)
qed auto

text \<open>
  C9. A kernel whose body asks \<open>allocBlockSharedMem\<close> for zero elements does not
  compile: the static assertion fails, and the program never runs, so no fiber is created
  and the executor stays as it was, whatever the work size and the scheduling.
\<close>
theorem allocBlockSharedMem_zero_elements_rejected:
  assumes "AllocBlockSharedMem sz 0 \<in> set (body k)"
  shows "compile_and_execute es k workSize s =
           Failed (StaticAssertFailed
             ''The number of elements to allocate in block shared memory must not be zero!'') s"
  using instantiate_zero [OF assms] by (simp add: compile_and_execute_def)

theorem allocBlockSharedMem_zero_elements_rejected_witness:
  "AllocBlockSharedMem 4 0
     \<in> set (body \<lparr>body = [RecordIdxBlockKernel, AllocBlockSharedMem 4 0],
                   getBlockSharedExternMemSizeBytes = (\<lambda>v. 0)\<rparr>)
   \<and> compile_and_execute [Spawn 5, Resume 0]
       \<lparr>body = [RecordIdxBlockKernel, AllocBlockSharedMem 4 0],
         getBlockSharedExternMemSizeBytes = (\<lambda>v. 0)\<rparr>
       \<lparr>sizeGridBlocks = (1, 1, 1), sizeBlockKernels = (1, 1, 1)\<rparr> initial
     = Failed (StaticAssertFailed
         ''The number of elements to allocate in block shared memory must not be zero!'') initial"
proof -
  let ?k = "\<lparr>body = [RecordIdxBlockKernel, AllocBlockSharedMem 4 0],
              getBlockSharedExternMemSizeBytes = (\<lambda>v. 0)\<rparr>"
  have h: "AllocBlockSharedMem 4 0 \<in> set (body ?k)" by simp
  from allocBlockSharedMem_zero_elements_rejected [OF h] h show ?thesis by blast
qed

text \<open>
  C5. Take a state that the fibers of a block can reach from the start of the block,
  under any scheduling, and a fiber in it; let \<open>N\<close> be the number of synchronisations the
  fiber has completed. Once the fiber is registered its phase counter is \<open>N\<close> (as a
  \<open>std::size_t\<close>). If the fiber is about to call \<open>syncBlockKernels\<close>, the call uses the
  barrier \<open>N mod 2\<close> and leaves the other one alone; it sets the counter of that barrier,
  if it finds it at zero, to the number of kernels of the block before it decrements it;
  if the decrement reaches zero the call completes and the phase counter is \<open>N + 1\<close>,
  otherwise the fiber is suspended in the wait of that barrier with its phase counter
  unchanged. A fiber suspended or notified inside its call waits on the barrier
  \<open>N mod 2\<close>, and a notified fiber that runs again completes the call with the phase
  counter \<open>N + 1\<close>. The barriers of two consecutive calls differ.
\<close>
theorem syncBlockKernels_double_buffering:
  assumes idle: "idle s0"
    and n: "m_uiNumKernelsPerBlock s0 = of_nat (prod3 sz)" "prod3 sz \<le> getSizeBlockKernelsLinearMax"
    and run: "run_events (fiberKernel k) es (begin_block sz b s0) = Finished s"
    and i: "i < length (m_vFibersInBlock s)"
  shows "(0 < f_pc (m_vFibersInBlock s ! i) \<longrightarrow>
            m_mFibersToBarrier s (f_id (m_vFibersInBlock s ! i))
              = Some (of_nat (passed (fiberKernel k) (m_vFibersInBlock s ! i))))
    \<and> (f_status (m_vFibersInBlock s ! i) = Ready
         \<and> fiberKernel k ! f_pc (m_vFibersInBlock s ! i) = SyncBlockKernels \<longrightarrow>
         (\<exists>released s1 s'.
            syncBlockKernels_arrive (f_id (m_vFibersInBlock s ! i)) s
              = Inr (released, passed (fiberKernel k) (m_vFibersInBlock s ! i) mod 2, s1)
          \<and> m_uiNumFibersToWaitFor
               (m_abarSyncFibers s1 (passed (fiberKernel k) (m_vFibersInBlock s ! i) mod 2))
             = (if m_uiNumFibersToWaitFor
                     (m_abarSyncFibers s (passed (fiberKernel k) (m_vFibersInBlock s ! i) mod 2)) = 0
                then of_nat (prod3 sz)
                else m_uiNumFibersToWaitFor
                     (m_abarSyncFibers s (passed (fiberKernel k) (m_vFibersInBlock s ! i) mod 2))) - 1
          \<and> m_uiNumFibersToWaitFor
               (m_abarSyncFibers s1 (Suc (passed (fiberKernel k) (m_vFibersInBlock s ! i)) mod 2))
             = m_uiNumFibersToWaitFor
               (m_abarSyncFibers s (Suc (passed (fiberKernel k) (m_vFibersInBlock s ! i)) mod 2))
          \<and> released = (m_uiNumFibersToWaitFor
               (m_abarSyncFibers s1 (passed (fiberKernel k) (m_vFibersInBlock s ! i) mod 2)) = 0)
          \<and> resume (fiberKernel k) i s = Inr s'
          \<and> (if released
              then f_pc (m_vFibersInBlock s' ! i) = Suc (f_pc (m_vFibersInBlock s ! i))
                 \<and> m_mFibersToBarrier s' (f_id (m_vFibersInBlock s ! i))
                    = Some (of_nat (passed (fiberKernel k) (m_vFibersInBlock s ! i)) + 1)
              else f_status (m_vFibersInBlock s' ! i)
                    = Suspended (passed (fiberKernel k) (m_vFibersInBlock s ! i) mod 2)
                 \<and> f_pc (m_vFibersInBlock s' ! i) = f_pc (m_vFibersInBlock s ! i)
                 \<and> m_mFibersToBarrier s' (f_id (m_vFibersInBlock s ! i))
                    = Some (of_nat (passed (fiberKernel k) (m_vFibersInBlock s ! i))))))
    \<and> (\<forall>w. f_status (m_vFibersInBlock s ! i) = Suspended w \<longrightarrow>
          w = passed (fiberKernel k) (m_vFibersInBlock s ! i) mod 2
          \<and> fiberKernel k ! f_pc (m_vFibersInBlock s ! i) = SyncBlockKernels)
    \<and> (\<forall>w. f_status (m_vFibersInBlock s ! i) = Notified w \<longrightarrow>
          w = passed (fiberKernel k) (m_vFibersInBlock s ! i) mod 2
          \<and> fiberKernel k ! f_pc (m_vFibersInBlock s ! i) = SyncBlockKernels
          \<and> (\<exists>s'. resume (fiberKernel k) i s = Inr s'
                \<and> f_pc (m_vFibersInBlock s' ! i) = Suc (f_pc (m_vFibersInBlock s ! i))
                \<and> m_mFibersToBarrier s' (f_id (m_vFibersInBlock s ! i))
                    = Some (of_nat (passed (fiberKernel k) (m_vFibersInBlock s ! i)) + 1)))
    \<and> Suc (passed (fiberKernel k) (m_vFibersInBlock s ! i)) mod 2
         \<noteq> passed (fiberKernel k) (m_vFibersInBlock s ! i) mod 2"
proof -
  let ?prog = "fiberKernel k"
  let ?fs = "m_vFibersInBlock s"
  let ?f = "?fs ! i"
  let ?N = "passed ?prog ?f"
  note ok = prog_ok_fiberKernel [of k]
  from block_reachable(1) [OF idle n run] obtain g where
    inv: "block_inv ?prog (prod3 sz) g s" by blast
  from inv have fok: "\<forall>f \<in> set ?fs. fiber_ok ?prog g f" and tab: "tables_ok ?prog s"
    and N: "m_uiNumKernelsPerBlock s = of_nat (prod3 sz)"
    by (simp_all add: block_inv_def)
  from fok i have fi: "fiber_ok ?prog g ?f" by simp
  have A: "0 < f_pc ?f \<longrightarrow> m_mFibersToBarrier s (f_id ?f) = Some (of_nat ?N)"
    using tab i by (auto simp: tables_ok_def)
  have B: "\<exists>released s1 s'.
            syncBlockKernels_arrive (f_id ?f) s = Inr (released, ?N mod 2, s1)
          \<and> m_uiNumFibersToWaitFor (m_abarSyncFibers s1 (?N mod 2))
             = (if m_uiNumFibersToWaitFor (m_abarSyncFibers s (?N mod 2)) = 0
                then of_nat (prod3 sz)
                else m_uiNumFibersToWaitFor (m_abarSyncFibers s (?N mod 2))) - 1
          \<and> m_uiNumFibersToWaitFor (m_abarSyncFibers s1 (Suc ?N mod 2))
             = m_uiNumFibersToWaitFor (m_abarSyncFibers s (Suc ?N mod 2))
          \<and> released = (m_uiNumFibersToWaitFor (m_abarSyncFibers s1 (?N mod 2)) = 0)
          \<and> resume ?prog i s = Inr s'
          \<and> (if released
              then f_pc (m_vFibersInBlock s' ! i) = Suc (f_pc ?f)
                 \<and> m_mFibersToBarrier s' (f_id ?f) = Some (of_nat ?N + 1)
              else f_status (m_vFibersInBlock s' ! i) = Suspended (?N mod 2)
                 \<and> f_pc (m_vFibersInBlock s' ! i) = f_pc ?f
                 \<and> m_mFibersToBarrier s' (f_id ?f) = Some (of_nat ?N))"
    if st: "f_status ?f = Ready" and op: "?prog ! f_pc ?f = SyncBlockKernels"
  proof -
    from fi st have pg: "?N = g" by (simp add: fiber_ok_def)
    note facts = sync_facts [OF inv ok i st op]
    let ?c1 = "of_nat (prod3 sz - Suc (suspended_count ?fs)) :: size_t"
    have arr: "syncBlockKernels_arrive (f_id ?f) s
        = Inr (?c1 = 0, g mod 2,
               if ?c1 = 0 then notify_all (g mod 2) (arrive_bar (g mod 2) ?c1 s)
               else arrive_bar (g mod 2) ?c1 s)"
      unfolding syncBlockKernels_arrive_eq [OF facts(1)] Let_def unat_of_nat_mod2 facts(4) ..
    have res: "resume ?prog i s = exec_op ?prog i SyncBlockKernels s"
      using st op by (simp add: resume_def)
    have rhs: "(if m_uiNumFibersToWaitFor (m_abarSyncFibers s (g mod 2)) = 0
                then of_nat (prod3 sz)
                else m_uiNumFibersToWaitFor (m_abarSyncFibers s (g mod 2))) - 1 = ?c1"
      using facts(4) unfolding N .
    show ?thesis
    proof (cases "Suc (suspended_count ?fs) = prod3 sz")
      case True
      with facts(5) have z: "?c1 = 0" by simp
      let ?s1 = "notify_all (g mod 2) (arrive_bar (g mod 2) 0 s)"
      let ?s' = "advance ?prog i (set_phase (f_id ?f) (of_nat (Suc g)) ?s1)"
      from block_inv_sync_release(1) [OF inv ok i st op True] res
      have r: "resume ?prog i s = Inr ?s'"
        by simp
      have a1: "syncBlockKernels_arrive (f_id ?f) s = Inr (True, g mod 2, ?s1)"
        unfolding arr using z by simp
      have a2: "m_uiNumFibersToWaitFor (m_abarSyncFibers ?s1 (g mod 2)) = 0" by simp
      have a3: "m_uiNumFibersToWaitFor (m_abarSyncFibers ?s1 (Suc g mod 2))
          = m_uiNumFibersToWaitFor (m_abarSyncFibers s (Suc g mod 2))"
        using Suc_mod2_neq [of g] by simp
      have a4: "f_pc (m_vFibersInBlock ?s' ! i) = Suc (f_pc ?f)"
        using i st by simp
      have a5: "m_mFibersToBarrier ?s' (f_id ?f) = Some (of_nat g + 1)"
        by (simp add: add.commute)
      show ?thesis
        unfolding pg rhs
        by (rule exI [of _ True], rule exI [of _ ?s1], rule exI [of _ ?s'])
          (simp only: a1 a2 a3 a4 a5 r z if_True simp_thms)
    next
      case False
      with facts(5) have z: "?c1 \<noteq> 0" by simp
      let ?s1 = "arrive_bar (g mod 2) ?c1 s"
      let ?s' = "suspend i (g mod 2) ?s1"
      from block_inv_sync_suspend(1) [OF inv ok i st op False] res
      have r: "resume ?prog i s = Inr ?s'"
        by simp
      have a1: "syncBlockKernels_arrive (f_id ?f) s = Inr (False, g mod 2, ?s1)"
        unfolding arr using z by simp
      have a2: "m_uiNumFibersToWaitFor (m_abarSyncFibers ?s1 (g mod 2)) = ?c1" by simp
      have a3: "m_uiNumFibersToWaitFor (m_abarSyncFibers ?s1 (Suc g mod 2))
          = m_uiNumFibersToWaitFor (m_abarSyncFibers s (Suc g mod 2))"
        using Suc_mod2_neq [of g] by simp
      have a4: "f_status (m_vFibersInBlock ?s' ! i) = Suspended (g mod 2)"
        "f_pc (m_vFibersInBlock ?s' ! i) = f_pc ?f"
        using i by simp_all
      have a5: "m_mFibersToBarrier ?s' (f_id ?f) = Some (of_nat g)"
        using facts(1) by simp
      show ?thesis
        unfolding pg rhs
        by (rule exI [of _ False], rule exI [of _ ?s1], rule exI [of _ ?s'])
          (simp only: a1 a2 a3 a4 a5 r z if_False simp_thms)
    qed
  qed
  have C: "w = ?N mod 2 \<and> ?prog ! f_pc ?f = SyncBlockKernels" if "f_status ?f = Suspended w" for w
    using fi that by (simp add: fiber_ok_def)
  have D: "w = ?N mod 2 \<and> ?prog ! f_pc ?f = SyncBlockKernels
          \<and> (\<exists>s'. resume ?prog i s = Inr s'
                \<and> f_pc (m_vFibersInBlock s' ! i) = Suc (f_pc ?f)
                \<and> m_mFibersToBarrier s' (f_id ?f) = Some (of_nat ?N + 1))"
    if st: "f_status ?f = Notified w" for w
  proof -
    from fi st have w: "w = ?N mod 2" and op: "?prog ! f_pc ?f = SyncBlockKernels"
      and pg: "Suc ?N = g"
      by (simp_all add: fiber_ok_def)
    have "(of_nat ?N :: size_t) + 1 = of_nat g" using pg by auto
    with block_inv_notified(1) [OF inv i st] i w op show ?thesis by simp
  qed
  have E: "Suc ?N mod 2 \<noteq> ?N mod 2" by (rule Suc_mod2_neq)
  from A B C D E show ?thesis by blast
qed

theorem syncBlockKernels_double_buffering_witness:
  "\<exists>s. run_events (fiberKernel [RecordIdxBlockKernel]) [Spawn 5, Resume 0]
          (begin_block (2, 1, 1) (0, 0, 0) (initial\<lparr>m_uiNumKernelsPerBlock := 2\<rparr>)) = Finished s
       \<and> idle (initial\<lparr>m_uiNumKernelsPerBlock := 2\<rparr>)
       \<and> 0 < length (m_vFibersInBlock s)
       \<and> f_status (m_vFibersInBlock s ! 0) = Ready
       \<and> fiberKernel [RecordIdxBlockKernel] ! f_pc (m_vFibersInBlock s ! 0) = SyncBlockKernels
       \<and> m_mFibersToBarrier s 5 = Some 0
       \<and> (\<exists>s1. syncBlockKernels_arrive 5 s = Inr (False, 0, s1)
              \<and> m_uiNumFibersToWaitFor (m_abarSyncFibers s1 0) = 1)
       \<and> (\<exists>s2. run_events (fiberKernel [RecordIdxBlockKernel])
                  [Spawn 5, Resume 0, Resume 0, Spawn 6, Resume 1, Resume 1, Resume 1]
                  (begin_block (2, 1, 1) (0, 0, 0) (initial\<lparr>m_uiNumKernelsPerBlock := 2\<rparr>))
                = Finished s2
              \<and> 1 < length (m_vFibersInBlock s2)
              \<and> f_status (m_vFibersInBlock s2 ! 0) = Notified 0
              \<and> f_status (m_vFibersInBlock s2 ! 1) = Ready
              \<and> fiberKernel [RecordIdxBlockKernel] ! f_pc (m_vFibersInBlock s2 ! 1)
                  = SyncBlockKernels
              \<and> m_uiNumFibersToWaitFor (m_abarSyncFibers s2 1) = 0
              \<and> m_mFibersToBarrier s2 6 = Some 1
              \<and> (\<exists>s1. syncBlockKernels_arrive 6 s2 = Inr (False, 1, s1)
                     \<and> m_uiNumFibersToWaitFor (m_abarSyncFibers s1 1) = 1))"
proof -
  let ?s0 = "initial\<lparr>m_uiNumKernelsPerBlock := 2\<rparr>"
  let ?k = "[RecordIdxBlockKernel]"
  let ?r2 = "run_events (fiberKernel ?k)
      [Spawn 5, Resume 0, Resume 0, Spawn 6, Resume 1, Resume 1, Resume 1]
      (begin_block (2, 1, 1) (0, 0, 0) ?s0)"
  have "case ?r2 of
      Finished s \<Rightarrow> 1 < length (m_vFibersInBlock s) \<and> f_pc (m_vFibersInBlock s ! 1) = 3
         \<and> f_id (m_vFibersInBlock s ! 1) = 6 \<and> f_status (m_vFibersInBlock s ! 1) = Ready
         \<and> f_status (m_vFibersInBlock s ! 0) = Notified 0
         \<and> m_uiNumFibersToWaitFor (m_abarSyncFibers s 1) = 0
    | _ \<Rightarrow> False"
    by (simp add: eval_defs upt_rec)
  then obtain s2 where run2: "?r2 = Finished s2" and i2: "1 < length (m_vFibersInBlock s2)"
    and pc2: "f_pc (m_vFibersInBlock s2 ! 1) = 3" and id2: "f_id (m_vFibersInBlock s2 ! 1) = 6"
    and st2: "f_status (m_vFibersInBlock s2 ! 1) = Ready"
    and st0: "f_status (m_vFibersInBlock s2 ! 0) = Notified 0"
    and c2: "m_uiNumFibersToWaitFor (m_abarSyncFibers s2 1) = 0"
    by (cases ?r2) simp_all
  let ?r = "run_events (fiberKernel ?k) [Spawn 5, Resume 0] (begin_block (2, 1, 1) (0, 0, 0) ?s0)"
  have "case ?r of
      Finished s \<Rightarrow> 0 < length (m_vFibersInBlock s) \<and> f_pc (m_vFibersInBlock s ! 0) = 1
         \<and> f_id (m_vFibersInBlock s ! 0) = 5 \<and> f_status (m_vFibersInBlock s ! 0) = Ready
         \<and> m_uiNumFibersToWaitFor (m_abarSyncFibers s 0) = 0
    | _ \<Rightarrow> False"
    by (simp add: eval_defs upt_rec)
  then obtain s where run: "?r = Finished s" and i: "0 < length (m_vFibersInBlock s)"
    and pc: "f_pc (m_vFibersInBlock s ! 0) = 1" and id: "f_id (m_vFibersInBlock s ! 0) = 5"
    and st: "f_status (m_vFibersInBlock s ! 0) = Ready"
    and c: "m_uiNumFibersToWaitFor (m_abarSyncFibers s 0) = 0"
    by (cases ?r) simp_all
  have idle: "idle ?s0" by (simp add: idle_def initial_def)
  have n: "m_uiNumKernelsPerBlock ?s0 = of_nat (prod3 (2, 1, 1))"
    "prod3 (2, 1, 1) \<le> getSizeBlockKernelsLinearMax"
    by (simp_all add: prod3_def getSizeBlockKernelsLinearMax_def)
  have op: "fiberKernel ?k ! f_pc (m_vFibersInBlock s ! 0) = SyncBlockKernels"
    by (simp add: pc fiberKernel_def)
  have p: "passed (fiberKernel ?k) (m_vFibersInBlock s ! 0) = 0"
    by (simp add: passed_def pc syncs_def fiberKernel_def)
  have two: "(of_nat (prod3 (2, 1, 1)) :: size_t) - 1 = 1" by (simp add: prod3_def)
  from syncBlockKernels_double_buffering [OF idle n run i]
  have first: "m_mFibersToBarrier s 5 = Some 0
     \<and> (\<exists>s1. syncBlockKernels_arrive 5 s = Inr (False, 0, s1)
              \<and> m_uiNumFibersToWaitFor (m_abarSyncFibers s1 0) = 1)"
    unfolding p id using st op c pc two by auto
  have op2: "fiberKernel ?k ! f_pc (m_vFibersInBlock s2 ! 1) = SyncBlockKernels"
    unfolding pc2 by (simp add: fiberKernel_def numeral_3_eq_3)
  have p2: "passed (fiberKernel ?k) (m_vFibersInBlock s2 ! 1) = 1"
    unfolding passed_def pc2 by (simp add: syncs_def fiberKernel_def numeral_3_eq_3)
  have m2: "(1::nat) mod 2 = 1" "Suc 1 mod 2 = 0" by simp_all
  from syncBlockKernels_double_buffering [OF idle n run2 i2]
  have second: "m_mFibersToBarrier s2 6 = Some 1
     \<and> (\<exists>s1. syncBlockKernels_arrive 6 s2 = Inr (False, 1, s1)
              \<and> m_uiNumFibersToWaitFor (m_abarSyncFibers s1 1) = 1)"
    unfolding p2 id2 m2 using st2 op2 c2 pc2 two by auto
  from run2 i2 st0 st2 op2 c2 second
  have "\<exists>s2. ?r2 = Finished s2
              \<and> 1 < length (m_vFibersInBlock s2)
              \<and> f_status (m_vFibersInBlock s2 ! 0) = Notified 0
              \<and> f_status (m_vFibersInBlock s2 ! 1) = Ready
              \<and> fiberKernel ?k ! f_pc (m_vFibersInBlock s2 ! 1) = SyncBlockKernels
              \<and> m_uiNumFibersToWaitFor (m_abarSyncFibers s2 1) = 0
              \<and> m_mFibersToBarrier s2 6 = Some 1
              \<and> (\<exists>s1. syncBlockKernels_arrive 6 s2 = Inr (False, 1, s1)
                     \<and> m_uiNumFibersToWaitFor (m_abarSyncFibers s1 1) = 1)"
    by blast
  with run idle i st op first show ?thesis by blast
qed

lemma passed_zero: "f_pc f = 0 \<Longrightarrow> passed prog f = 0"
  by (simp add: passed_def syncs_def)

lemma inv_past_first_barrier:
  assumes inv: "block_inv prog n g s" and ok: "prog_ok prog"
    and j: "j < length (m_vFibersInBlock s)" and pc: "0 < passed prog (m_vFibersInBlock s ! j)"
  shows "toSpawn s = []" and "length (m_vFibersInBlock s) = n"
    and "\<forall>i < length (m_vFibersInBlock s). 0 < f_pc (m_vFibersInBlock s ! i)"
proof -
  let ?fs = "m_vFibersInBlock s"
  from inv have fok: "\<forall>f \<in> set ?fs. fiber_ok prog g f"
    and len: "length ?fs + length (toSpawn s) = n" and ts: "toSpawn s \<noteq> [] \<longrightarrow> g = 0"
    by (simp_all add: block_inv_def)
  from fok j have "fiber_ok prog g (?fs ! j)" by simp
  with pc have g: "0 < g"
    by (cases "f_status (?fs ! j)") (auto simp: fiber_ok_def)
  with ts show t: "toSpawn s = []" by auto
  with len show "length ?fs = n" by simp
  show "\<forall>i < length ?fs. 0 < f_pc (?fs ! i)"
  proof (intro allI impI)
    fix i assume i: "i < length ?fs"
    with fok have fi: "fiber_ok prog g (?fs ! i)" by simp
    show "0 < f_pc (?fs ! i)"
    proof (rule ccontr)
      assume "\<not> 0 < f_pc (?fs ! i)"
      then have z: "f_pc (?fs ! i) = 0" by simp
      from fi g passed_zero [OF z, of prog] z show False
        by (cases "f_status (?fs ! i)") (auto simp: fiber_ok_def)
    qed
  qed
qed

lemma block_tables:
  assumes idle: "idle s0"
    and n: "m_uiNumKernelsPerBlock s0 = of_nat (prod3 sz)" "prod3 sz \<le> getSizeBlockKernelsLinearMax"
    and run: "run_events (fiberKernel k) es (begin_block sz b s0) = Finished s"
  shows "(\<forall>idFiber v. m_mFibersToIndices s idFiber = Some v \<longrightarrow>
            (\<exists>j < length (m_vFibersInBlock s).
               f_id (m_vFibersInBlock s ! j) = idFiber \<and> 0 < f_pc (m_vFibersInBlock s ! j)
               \<and> f_arg (m_vFibersInBlock s ! j) = v \<and> indices3 sz ! j = v))
    \<and> dom (m_mFibersToBarrier s) = dom (m_mFibersToIndices s)
    \<and> ((\<exists>j < length (m_vFibersInBlock s). 0 < passed (fiberKernel k) (m_vFibersInBlock s ! j)) \<longrightarrow>
          toSpawn s = [] \<and> length (m_vFibersInBlock s) = prod3 sz
          \<and> (\<forall>j < length (m_vFibersInBlock s).
                m_mFibersToIndices s (f_id (m_vFibersInBlock s ! j)) = Some (indices3 sz ! j))
          \<and> ran (m_mFibersToIndices s) = set (indices3 sz))"
proof -
  let ?prog = "fiberKernel k"
  let ?fs = "m_vFibersInBlock s"
  note ok = prog_ok_fiberKernel [of k]
  from block_reachable [OF idle n run] obtain g where
    inv: "block_inv ?prog (prod3 sz) g s"
    and args: "map f_arg ?fs @ toSpawn s = indices3 sz"
    by blast
  from inv have tab: "tables_ok ?prog s" by (simp add: block_inv_def)
  have arg: "f_arg (?fs ! j) = indices3 sz ! j" if "j < length ?fs" for j
  proof -
    have "indices3 sz ! j = (map f_arg ?fs @ toSpawn s) ! j" by (simp add: args)
    with that show ?thesis by (simp add: nth_append)
  qed
  have ent: "if f_pc (?fs ! j) = 0
            then m_mFibersToIndices s (f_id (?fs ! j)) = None
               \<and> m_mFibersToBarrier s (f_id (?fs ! j)) = None
            else m_mFibersToIndices s (f_id (?fs ! j)) = Some (f_arg (?fs ! j))
               \<and> m_mFibersToBarrier s (f_id (?fs ! j)) = Some (of_nat (passed ?prog (?fs ! j)))"
    if "j < length ?fs" for j
    using tab that unfolding tables_ok_nth by blast
  from tab have doms: "dom (m_mFibersToIndices s) \<subseteq> f_id ` set ?fs"
    "dom (m_mFibersToBarrier s) \<subseteq> f_id ` set ?fs"
    by (simp_all add: tables_ok_def)
  have only: "\<exists>j < length ?fs. f_id (?fs ! j) = idFiber \<and> 0 < f_pc (?fs ! j)
               \<and> f_arg (?fs ! j) = v \<and> indices3 sz ! j = v"
    if m: "m_mFibersToIndices s idFiber = Some v" for idFiber v
  proof -
    from m doms(1) have "idFiber \<in> f_id ` set ?fs" by blast
    then obtain j where j: "j < length ?fs" "f_id (?fs ! j) = idFiber"
      by (auto simp: in_set_conv_nth)
    from ent [OF j(1)] m j(2) have "0 < f_pc (?fs ! j) \<and> f_arg (?fs ! j) = v"
      by (cases "f_pc (?fs ! j) = 0") auto
    with j arg [OF j(1)] show ?thesis by auto
  qed
  have same: "dom (m_mFibersToBarrier s) = dom (m_mFibersToIndices s)"
  proof (rule set_eqI)
    fix x
    show "x \<in> dom (m_mFibersToBarrier s) \<longleftrightarrow> x \<in> dom (m_mFibersToIndices s)"
    proof (cases "x \<in> f_id ` set ?fs")
      case True
      then obtain j where j: "j < length ?fs" "f_id (?fs ! j) = x"
        by (auto simp: in_set_conv_nth)
      from ent [OF j(1)] j(2) show ?thesis
        by (cases "f_pc (?fs ! j) = 0") (auto simp: domIff)
    next
      case False
      with doms show ?thesis by blast
    qed
  qed
  have full: "toSpawn s = [] \<and> length ?fs = prod3 sz
          \<and> (\<forall>j < length ?fs. m_mFibersToIndices s (f_id (?fs ! j)) = Some (indices3 sz ! j))
          \<and> ran (m_mFibersToIndices s) = set (indices3 sz)"
    if "\<exists>j < length ?fs. 0 < passed ?prog (?fs ! j)"
  proof -
    from that obtain j where j: "j < length ?fs" "0 < passed ?prog (?fs ! j)" by blast
    note past = inv_past_first_barrier [OF inv ok j]
    have all: "m_mFibersToIndices s (f_id (?fs ! i)) = Some (indices3 sz ! i)"
      if i: "i < length ?fs" for i
      using ent [OF i] past(3) i arg [OF i] by auto
    have "ran (m_mFibersToIndices s) = set (indices3 sz)"
    proof (intro set_eqI iffI)
      fix v assume "v \<in> ran (m_mFibersToIndices s)"
      then obtain idFiber where "m_mFibersToIndices s idFiber = Some v"
        by (auto simp: ran_def)
      from only [OF this] obtain i where "i < length ?fs" "indices3 sz ! i = v" by blast
      with past(2) show "v \<in> set (indices3 sz)"
        by (metis length_indices3 nth_mem)
    next
      fix v assume "v \<in> set (indices3 sz)"
      then obtain i where "i < prod3 sz" "indices3 sz ! i = v"
        by (auto simp: in_set_conv_nth length_indices3)
      with past(2) all [of i] show "v \<in> ran (m_mFibersToIndices s)"
        by (auto simp: ran_def)
    qed
    with past(1,2) all show ?thesis by blast
  qed
  from only same full show ?thesis by blast
qed

subsection \<open>The states of the executor while a block runs\<close>

lemma run_fibers_Unscheduled:
  "run_fibers prog es s = Unscheduled t \<Longrightarrow> \<exists>es'. run_events prog es' s = Finished t"
proof (induction es arbitrary: s)
  case Nil
  then have "t = s" by (simp split: if_splits)
  then have "run_events prog [] s = Finished t" by simp
  then show ?case ..
next
  case (Cons e es)
  show ?case
  proof (cases "\<not> all_joined s \<and> enabled prog e s")
    case False
    with Cons.prems have "t = s" by (auto split: if_splits)
    then have "run_events prog [] s = Finished t" by simp
    then show ?thesis ..
  next
    case True
    with Cons.prems obtain s2 where st: "step prog e s = Inr s2"
      and run: "run_fibers prog es s2 = Unscheduled t"
      by (auto split: sum.splits)
    from Cons.IH [OF run] obtain es' where "run_events prog es' s2 = Finished t" ..
    with True st have "run_events prog (e # es') s = Finished t" by simp
    then show ?thesis ..
  qed
qed

lemma step_length:
  assumes "step prog e s = Inr s'"
  shows "length (m_vFibersInBlock s) \<le> length (m_vFibersInBlock s')"
  using assms
  by (auto simp: step_def spawn_def resume_def exec_op_def Let_def
      syncBlockKernels_arrive_def syncBlockKernels_leave_def wait_arrive_def
      emplace_back_if_master_def record_entry_def
      split: event.splits list.splits fiber_status.splits lane_op.splits sum.splits
        option.splits if_splits prod.splits)

lemma run_events_length:
  "run_events prog es s = Finished s' \<Longrightarrow>
   length (m_vFibersInBlock s) \<le> length (m_vFibersInBlock s')"
proof (induction es arbitrary: s)
  case Nil
  then show ?case by simp
next
  case (Cons e es)
  then obtain s2 where st: "step prog e s = Inr s2"
    and run: "run_events prog es s2 = Finished s'"
    by (auto split: if_splits sum.splits)
  from step_length [OF st] Cons.IH [OF run] show ?case by simp
qed

text \<open>A block none of whose fibers exists is at its start.\<close>
lemma block_not_started:
  assumes run: "run_events prog es (begin_block sz b s0) = Finished s"
    and e0: "m_vFibersInBlock s0 = []" and e: "m_vFibersInBlock s = []"
  shows "s = begin_block sz b s0"
proof (cases es)
  case Nil
  with run show ?thesis by simp
next
  case (Cons e es')
  let ?st = "begin_block sz b s0"
  from run Cons obtain s2 where en: "enabled prog e ?st" and st: "step prog e ?st = Inr s2"
    and rest: "run_events prog es' s2 = Finished s"
    by (auto split: if_splits sum.splits)
  from e0 have fs: "m_vFibersInBlock ?st = []" by (simp add: begin_block_def)
  from en fs obtain idFiber where sp: "e = Spawn idFiber" and ts: "toSpawn ?st \<noteq> []"
    by (cases e) (auto simp: enabled_def)
  from st sp ts fs have "length (m_vFibersInBlock s2) = 1"
    by (auto simp: step_def spawn_def split: list.splits)
  with run_events_length [OF rest] e show ?thesis by simp
qed

lemma blocks_loop_Unscheduled:
  assumes ok: "prog_ok prog" and lt: "prod3 sz < 2 ^ 64"
  shows "idle s \<Longrightarrow> m_uiNumKernelsPerBlock s = of_nat (prod3 sz) \<Longrightarrow>
         blocks_loop prog sz bs es s = Unscheduled t \<Longrightarrow>
         \<exists>b s1 es1. b \<in> set bs \<and> idle s1 \<and> m_uiNumKernelsPerBlock s1 = of_nat (prod3 sz)
           \<and> run_events prog es1 (begin_block sz b s1) = Finished t
           \<and> (b \<noteq> hd bs \<or> m_vvuiSharedMem s = [] \<and> m_vuiExternalSharedMem s = [] \<longrightarrow>
                m_vvuiSharedMem s1 = [] \<and> m_vuiExternalSharedMem s1 = [])"
proof (induction bs arbitrary: s es)
  case Nil
  then show ?case by simp
next
  case (Cons b bs)
  note inv = block_inv_begin [OF Cons.prems(1,2) lt, of prog b]
  show ?case
  proof (cases "run_fibers prog es (begin_block sz b s)")
    case (Finished p)
    obtain s2 es2 where p: "p = (s2, es2)" by (cases p)
    with Finished Cons.prems(3) have loop: "blocks_loop prog sz bs es2 (end_block s2) = Unscheduled t"
      by simp
    from run_fibers_inv(1) [OF inv ok Finished [unfolded p]] obtain g' where
      "block_inv prog (prod3 sz) g' s2" "all_joined s2" by blast
    from Cons.IH [OF idle_end_block [OF this] loop] obtain b' s1 es1 where
      "b' \<in> set bs" "idle s1" "m_uiNumKernelsPerBlock s1 = of_nat (prod3 sz)"
      "run_events prog es1 (begin_block sz b' s1) = Finished t"
      "m_vvuiSharedMem s1 = [] \<and> m_vuiExternalSharedMem s1 = []"
      by (auto simp: end_block_def)
    then show ?thesis
      by (intro exI [of _ b'] exI [of _ s1] exI [of _ es1]) simp
  next
    case (Failed err s2)
    with Cons.prems(3) show ?thesis by simp
  next
    case (Unscheduled s2)
    with Cons.prems(3) have "run_fibers prog es (begin_block sz b s) = Unscheduled t" by simp
    from run_fibers_Unscheduled [OF this] obtain es1 where
      "run_events prog es1 (begin_block sz b s) = Finished t" ..
    with Cons.prems(1,2) show ?thesis
      by (intro exI [of _ b] exI [of _ s] exI [of _ es1]) simp
  qed
qed

lemma blocks_loop_cleared:
  assumes ok: "prog_ok prog" and lt: "prod3 sz < 2 ^ 64"
  shows "idle s \<Longrightarrow> m_uiNumKernelsPerBlock s = of_nat (prod3 sz) \<Longrightarrow>
         blocks_loop prog sz bs es s = Finished (s', rest) \<Longrightarrow>
         bs \<noteq> [] \<or> m_vvuiSharedMem s = [] \<and> m_vuiExternalSharedMem s = [] \<Longrightarrow>
         idle s' \<and> m_vvuiSharedMem s' = [] \<and> m_vuiExternalSharedMem s' = []"
proof (induction bs arbitrary: s es)
  case Nil
  then show ?case by simp
next
  case (Cons b bs)
  note inv = block_inv_begin [OF Cons.prems(1,2) lt, of prog b]
  from Cons.prems(3) obtain s2 es2 where run: "run_fibers prog es (begin_block sz b s) = Finished (s2, es2)"
    and loop: "blocks_loop prog sz bs es2 (end_block s2) = Finished (s', rest)"
    by (auto split: outcome.splits)
  from run_fibers_inv(1) [OF inv ok run] obtain g' where
    "block_inv prog (prod3 sz) g' s2" "all_joined s2" by blast
  from Cons.IH [OF idle_end_block [OF this] loop] show ?case
    by (simp add: end_block_def)
qed

lemma hd_indices3: "indices3 v \<noteq> [] \<Longrightarrow> hd (indices3 v) = (0, 0, 0)"
proof -
  assume ne: "indices3 v \<noteq> []"
  obtain x y z where v: "v = (x, y, z)" by (cases v)
  from ne have "0 < length (indices3 v)" by simp
  then have "0 < x * y * z" by (simp add: length_indices3 v prod3_def)
  then have "0 < x" "0 < y" "0 < z" by simp_all
  then have "[0..<x] = 0 # [Suc 0..<x]" "[0..<y] = 0 # [Suc 0..<y]" "[0..<z] = 0 # [Suc 0..<z]"
    by (simp_all add: upt_conv_Cons)
  then show ?thesis by (simp add: v indices3_def)
qed

text \<open>
  C7, as the code has it. Let \<open>execute\<close> start with the executor between two blocks.
  The states in which the executor can be found while a block runs, under any scheduling,
  are the states \<open>s\<close> with \<open>execute es k workSize s0 = Unscheduled s\<close>. In every such
  state the block index is one of the grid, the fibers that exist are those that the loops
  over the kernels of this block have created so far, the two tables have the same keys,
  and every entry belongs to one of these fibers, one that has run the entry of
  \<open>fiberKernel\<close>, and holds the index the fiber was created with. Once some fiber has a
  synchronisation behind it, all fibers of the block have been created and the table of
  indices holds all of them, so that its values are exactly the indices of the block. When
  a block other than the first has been entered and none of its fibers has been created
  yet, nothing of the block before is left: there is no fiber, and the two tables, the
  shared memory and the external shared memory are empty (entering a block changes none
  of them, so this is how the clean up after the joins left them). And when \<open>execute\<close>
  returns from a grid that has a block, they are empty as well.
\<close>
theorem tables_during_and_after_block:
  assumes idle: "idle s0"
  shows "(\<forall>es s. execute es k workSize s0 = Unscheduled s \<longrightarrow>
            m_v3uiGridBlockIdx s \<in> set (indices3 (sizeGridBlocks workSize))
          \<and> map f_arg (m_vFibersInBlock s) @ toSpawn s = indices3 (sizeBlockKernels workSize)
          \<and> (\<forall>idFiber v. m_mFibersToIndices s idFiber = Some v \<longrightarrow>
                (\<exists>j < length (m_vFibersInBlock s).
                   f_id (m_vFibersInBlock s ! j) = idFiber \<and> 0 < f_pc (m_vFibersInBlock s ! j)
                   \<and> f_arg (m_vFibersInBlock s ! j) = v
                   \<and> indices3 (sizeBlockKernels workSize) ! j = v))
          \<and> dom (m_mFibersToBarrier s) = dom (m_mFibersToIndices s)
          \<and> ((\<exists>j < length (m_vFibersInBlock s).
                 0 < passed (fiberKernel (body k)) (m_vFibersInBlock s ! j)) \<longrightarrow>
                toSpawn s = []
                \<and> length (m_vFibersInBlock s) = prod3 (sizeBlockKernels workSize)
                \<and> (\<forall>j < length (m_vFibersInBlock s).
                      m_mFibersToIndices s (f_id (m_vFibersInBlock s ! j))
                        = Some (indices3 (sizeBlockKernels workSize) ! j))
                \<and> ran (m_mFibersToIndices s) = set (indices3 (sizeBlockKernels workSize)))
          \<and> (toSpawn s = indices3 (sizeBlockKernels workSize)
               \<and> m_v3uiGridBlockIdx s \<noteq> (0, 0, 0) \<longrightarrow>
                m_vFibersInBlock s = []
                \<and> m_mFibersToIndices s = Map.empty \<and> m_mFibersToBarrier s = Map.empty
                \<and> m_vvuiSharedMem s = [] \<and> m_vuiExternalSharedMem s = []))
    \<and> (\<forall>es s' rest. execute es k workSize s0 = Finished (s', rest)
            \<and> indices3 (sizeGridBlocks workSize) \<noteq> [] \<longrightarrow>
            m_vFibersInBlock s' = []
          \<and> m_mFibersToIndices s' = Map.empty \<and> m_mFibersToBarrier s' = Map.empty
          \<and> m_vvuiSharedMem s' = [] \<and> m_vuiExternalSharedMem s' = [])"
proof -
  let ?sz = "sizeBlockKernels workSize"
  let ?bs = "indices3 (sizeGridBlocks workSize)"
  let ?prog = "fiberKernel (body k)"
  let ?s3 = "s0\<lparr>m_workSize := workSize, m_uiNumKernelsPerBlock := of_nat (prod3 ?sz),
      m_vuiExternalSharedMem := resize (getBlockSharedExternMemSizeBytes k ?sz) (m_vuiExternalSharedMem s0)\<rparr>"
  note ok = prog_ok_fiberKernel [of "body k"]
  from idle have idle3: "idle ?s3" by (simp add: idle_def)
  have N3: "m_uiNumKernelsPerBlock ?s3 = of_nat (prod3 ?sz)" by simp
  have ex: "prod3 ?sz \<le> 1024 \<and> execute es k workSize s0 = grid_loop ?prog ?sz (sizeGridBlocks workSize) es ?s3"
    if "\<forall>msg s1. execute es k workSize s0 \<noteq> Failed (RuntimeError msg) s1" for es
    using that
    by (cases "1024 < prod3 ?sz")
      (simp_all add: execute_def getSizeBlockKernelsLinear_def getSizeBlockKernelsLinearMax_def Let_def)
  have during: "m_v3uiGridBlockIdx s \<in> set ?bs
          \<and> map f_arg (m_vFibersInBlock s) @ toSpawn s = indices3 ?sz
          \<and> (\<forall>idFiber v. m_mFibersToIndices s idFiber = Some v \<longrightarrow>
                (\<exists>j < length (m_vFibersInBlock s).
                   f_id (m_vFibersInBlock s ! j) = idFiber \<and> 0 < f_pc (m_vFibersInBlock s ! j)
                   \<and> f_arg (m_vFibersInBlock s ! j) = v \<and> indices3 ?sz ! j = v))
          \<and> dom (m_mFibersToBarrier s) = dom (m_mFibersToIndices s)
          \<and> ((\<exists>j < length (m_vFibersInBlock s). 0 < passed ?prog (m_vFibersInBlock s ! j)) \<longrightarrow>
                toSpawn s = [] \<and> length (m_vFibersInBlock s) = prod3 ?sz
                \<and> (\<forall>j < length (m_vFibersInBlock s).
                      m_mFibersToIndices s (f_id (m_vFibersInBlock s ! j)) = Some (indices3 ?sz ! j))
                \<and> ran (m_mFibersToIndices s) = set (indices3 ?sz))
          \<and> (toSpawn s = indices3 ?sz \<and> m_v3uiGridBlockIdx s \<noteq> (0, 0, 0) \<longrightarrow>
                m_vFibersInBlock s = []
                \<and> m_mFibersToIndices s = Map.empty \<and> m_mFibersToBarrier s = Map.empty
                \<and> m_vvuiSharedMem s = [] \<and> m_vuiExternalSharedMem s = [])"
    if un: "execute es k workSize s0 = Unscheduled s" for es s
  proof -
    from un have "\<forall>msg s1. execute es k workSize s0 \<noteq> Failed (RuntimeError msg) s1" by simp
    from ex [OF this] un have le: "prod3 ?sz \<le> 1024"
      and g: "grid_loop ?prog ?sz (sizeGridBlocks workSize) es ?s3 = Unscheduled s"
      by simp_all
    from le have lt: "prod3 ?sz < 2 ^ 64" by simp
    from le have le': "prod3 ?sz \<le> getSizeBlockKernelsLinearMax"
      by (simp add: getSizeBlockKernelsLinearMax_def)
    from g have "blocks_loop ?prog ?sz ?bs es ?s3 = Unscheduled s"
      by (simp only: grid_loop_Unscheduled)
    from blocks_loop_Unscheduled [OF ok lt idle3 N3 this] obtain b s1 es1 where
      b: "b \<in> set ?bs" and idle1: "idle s1"
      and N1: "m_uiNumKernelsPerBlock s1 = of_nat (prod3 ?sz)"
      and run: "run_events ?prog es1 (begin_block ?sz b s1) = Finished s"
      and later: "b \<noteq> hd ?bs \<longrightarrow> m_vvuiSharedMem s1 = [] \<and> m_vuiExternalSharedMem s1 = []"
      by blast
    note reach = block_reachable [OF idle1 N1 le' run]
    note tabs = block_tables [OF idle1 N1 le' run]
    from reach(3) b have a1: "m_v3uiGridBlockIdx s \<in> set ?bs" by simp
    have start: "m_vFibersInBlock s = []
        \<and> m_mFibersToIndices s = Map.empty \<and> m_mFibersToBarrier s = Map.empty
        \<and> m_vvuiSharedMem s = [] \<and> m_vuiExternalSharedMem s = []"
      if ts: "toSpawn s = indices3 ?sz" and nz: "m_v3uiGridBlockIdx s \<noteq> (0, 0, 0)"
    proof -
      from reach(2) ts have fs: "m_vFibersInBlock s = []" by simp
      from idle1 have "m_vFibersInBlock s1 = []" by (simp add: idle_def)
      from block_not_started [OF run this fs] have s: "s = begin_block ?sz b s1" .
      from b have "?bs \<noteq> []" by auto
      from hd_indices3 [OF this] nz reach(3) have "b \<noteq> hd ?bs" by simp
      with later have cl: "m_vvuiSharedMem s1 = [] \<and> m_vuiExternalSharedMem s1 = []" by simp
      have "m_mFibersToIndices s = m_mFibersToIndices s1
          \<and> m_mFibersToBarrier s = m_mFibersToBarrier s1
          \<and> m_vvuiSharedMem s = m_vvuiSharedMem s1
          \<and> m_vuiExternalSharedMem s = m_vuiExternalSharedMem s1"
        by (subst (1 2 3 4) s) (simp add: begin_block_def)
      with fs cl idle1 show ?thesis by (simp add: idle_def)
    qed
    from a1 reach(2) tabs start show ?thesis by blast
  qed
  have after: "m_vFibersInBlock s' = []
          \<and> m_mFibersToIndices s' = Map.empty \<and> m_mFibersToBarrier s' = Map.empty
          \<and> m_vvuiSharedMem s' = [] \<and> m_vuiExternalSharedMem s' = []"
    if fin: "execute es k workSize s0 = Finished (s', rest)" and ne: "?bs \<noteq> []" for es s' rest
  proof -
    from fin have "\<forall>msg s1. execute es k workSize s0 \<noteq> Failed (RuntimeError msg) s1" by simp
    from ex [OF this] fin have le: "prod3 ?sz \<le> 1024"
      and g: "grid_loop ?prog ?sz (sizeGridBlocks workSize) es ?s3 = Finished (s', rest)"
      by simp_all
    from le have lt: "prod3 ?sz < 2 ^ 64" by simp
    from grid_loop_Finished [OF g] obtain t where
      t: "blocks_loop ?prog ?sz ?bs es ?s3 = Finished (t, rest)"
      and s': "s' = t\<lparr>m_v3uiGridBlockIdx := m_v3uiGridBlockIdx s'\<rparr>"
      by blast
    from ne have "?bs \<noteq> [] \<or> m_vvuiSharedMem ?s3 = [] \<and> m_vuiExternalSharedMem ?s3 = []" by simp
    from blocks_loop_cleared [OF ok lt idle3 N3 t this]
    have "m_vFibersInBlock t = []
          \<and> m_mFibersToIndices t = Map.empty \<and> m_mFibersToBarrier t = Map.empty
          \<and> m_vvuiSharedMem t = [] \<and> m_vuiExternalSharedMem t = []"
      by (simp add: idle_def)
    then show ?thesis by (subst (1 2 3 4 5) s') simp
  qed
  from during after show ?thesis by blast
qed

theorem tables_during_and_after_block_witness:
  "\<exists>s t s'.
     idle initial
     \<and> execute [Spawn 5, Resume 0, Resume 0, Spawn 6, Resume 1, Resume 1]
         \<lparr>body = [RecordIdxBlockKernel], getBlockSharedExternMemSizeBytes = (\<lambda>v. 16)\<rparr>
         \<lparr>sizeGridBlocks = (2, 1, 1), sizeBlockKernels = (2, 1, 1)\<rparr> initial = Unscheduled s
     \<and> 1 < length (m_vFibersInBlock s)
     \<and> 0 < passed (fiberKernel [RecordIdxBlockKernel]) (m_vFibersInBlock s ! 1)
     \<and> length (m_vuiExternalSharedMem s) = 16
     \<and> ran (m_mFibersToIndices s) = set (indices3 (2, 1, 1))
     \<and> execute [Spawn 5, Resume 0, Resume 0, Spawn 6, Resume 1, Resume 1, Resume 1,
           Resume 1, Resume 0, Resume 0, Resume 0, Resume 1]
         \<lparr>body = [RecordIdxBlockKernel], getBlockSharedExternMemSizeBytes = (\<lambda>v. 16)\<rparr>
         \<lparr>sizeGridBlocks = (2, 1, 1), sizeBlockKernels = (2, 1, 1)\<rparr> initial = Unscheduled t
     \<and> toSpawn t = indices3 (2, 1, 1) \<and> m_v3uiGridBlockIdx t = (1, 0, 0)
     \<and> m_vFibersInBlock t = [] \<and> m_mFibersToIndices t = Map.empty
     \<and> m_mFibersToBarrier t = Map.empty
     \<and> m_vvuiSharedMem t = [] \<and> m_vuiExternalSharedMem t = []
     \<and> execute [Spawn 5, Resume 0, Resume 0, Spawn 6, Resume 1, Resume 1, Resume 1,
           Resume 1, Resume 0, Resume 0, Resume 0, Resume 1,
           Spawn 5, Spawn 6, Resume 0, Resume 0, Resume 1, Resume 1, Resume 1, Resume 1,
           Resume 0, Resume 0, Resume 0, Resume 1]
         \<lparr>body = [RecordIdxBlockKernel], getBlockSharedExternMemSizeBytes = (\<lambda>v. 16)\<rparr>
         \<lparr>sizeGridBlocks = (2, 1, 1), sizeBlockKernels = (2, 1, 1)\<rparr> initial = Finished (s', [])
     \<and> m_mFibersToIndices s' = Map.empty \<and> m_mFibersToBarrier s' = Map.empty
     \<and> m_vvuiSharedMem s' = [] \<and> m_vuiExternalSharedMem s' = []"
proof -
  let ?k = "\<lparr>body = [RecordIdxBlockKernel], getBlockSharedExternMemSizeBytes = (\<lambda>v. 16)\<rparr>"
  let ?ws = "\<lparr>sizeGridBlocks = (2, 1, 1), sizeBlockKernels = (2, 1, 1)\<rparr>"
  let ?prog = "fiberKernel [RecordIdxBlockKernel]"
  let ?r = "execute [Spawn 5, Resume 0, Resume 0, Spawn 6, Resume 1, Resume 1] ?k ?ws initial"
  let ?q = "execute [Spawn 5, Resume 0, Resume 0, Spawn 6, Resume 1, Resume 1, Resume 1,
           Resume 1, Resume 0, Resume 0, Resume 0, Resume 1] ?k ?ws initial"
  let ?f = "execute [Spawn 5, Resume 0, Resume 0, Spawn 6, Resume 1, Resume 1, Resume 1,
           Resume 1, Resume 0, Resume 0, Resume 0, Resume 1,
           Spawn 5, Spawn 6, Resume 0, Resume 0, Resume 1, Resume 1, Resume 1, Resume 1,
           Resume 0, Resume 0, Resume 0, Resume 1] ?k ?ws initial"
  have "case ?r of
      Unscheduled s \<Rightarrow> 1 < length (m_vFibersInBlock s) \<and> f_pc (m_vFibersInBlock s ! 1) = 2
        \<and> length (m_vuiExternalSharedMem s) = 16
    | _ \<Rightarrow> False"
    by (simp add: eval_execute_defs eval_defs upt_rec)
  then obtain s where run: "?r = Unscheduled s" and i: "1 < length (m_vFibersInBlock s)"
    and pc: "f_pc (m_vFibersInBlock s ! 1) = 2"
    and ext: "length (m_vuiExternalSharedMem s) = 16"
    by (cases ?r) simp_all
  have "case ?q of
      Unscheduled t \<Rightarrow> toSpawn t = indices3 (2, 1, 1) \<and> m_v3uiGridBlockIdx t = (1, 0, 0)
    | _ \<Rightarrow> False"
    by (simp add: eval_execute_defs eval_defs upt_rec)
  then obtain t where start: "?q = Unscheduled t" and ts: "toSpawn t = indices3 (2, 1, 1)"
    and ix: "m_v3uiGridBlockIdx t = (1, 0, 0)"
    by (cases ?q) simp_all
  have "case ?f of Finished (s', rest) \<Rightarrow> rest = [] | _ \<Rightarrow> False"
    by (simp add: eval_execute_defs eval_defs upt_rec)
  then obtain s' where fin: "?f = Finished (s', [])"
    by (cases ?f) auto
  have idle: "idle initial" by (simp add: idle_def initial_def)
  have p: "0 < passed ?prog (m_vFibersInBlock s ! 1)"
    unfolding passed_def pc by (simp add: syncs_def fiberKernel_def numeral_2_eq_2)
  with i have ex: "\<exists>j < length (m_vFibersInBlock s).
      0 < passed (fiberKernel (body ?k)) (m_vFibersInBlock s ! j)"
    by auto
  have sz: "sizeBlockKernels ?ws = (2, 1, 1)" by simp
  from ix have nz: "m_v3uiGridBlockIdx t \<noteq> (0, 0, 0)" by simp
  have ne: "indices3 (sizeGridBlocks ?ws) \<noteq> []" by (simp add: indices3_def upt_rec)
  note th = tables_during_and_after_block [OF idle, of ?k ?ws]
  from th run ex have a: "ran (m_mFibersToIndices s) = set (indices3 (2, 1, 1))"
    unfolding sz by blast
  from th start ts nz have b: "m_vFibersInBlock t = [] \<and> m_mFibersToIndices t = Map.empty
     \<and> m_mFibersToBarrier t = Map.empty \<and> m_vvuiSharedMem t = [] \<and> m_vuiExternalSharedMem t = []"
    unfolding sz by blast
  from th fin ne have c: "m_mFibersToIndices s' = Map.empty \<and> m_mFibersToBarrier s' = Map.empty
     \<and> m_vvuiSharedMem s' = [] \<and> m_vuiExternalSharedMem s' = []"
    by blast
  from idle run i p ext a start ts ix b fin c show ?thesis by blast
qed

text \<open>
  C7 as it is stated fails while the fibers are being created: in the block of two
  kernels, after the first fiber has been created and has registered, the table of
  indices holds the entry of that fiber only; the index (1, 0, 0) of the block has none.
  This is the state in which \<open>execute\<close> is found after these two events.
\<close>
theorem tables_incomplete_during_registration:
  "(case run_events (fiberKernel [RecordIdxBlockKernel]) [Spawn 5, Resume 0]
          (begin_block (2, 1, 1) (0, 0, 0) (initial\<lparr>m_uiNumKernelsPerBlock := 2\<rparr>)) of
      Finished s \<Rightarrow>
        (1, 0, 0) \<in> set (indices3 (2, 1, 1))
        \<and> m_mFibersToIndices s 5 = Some (0, 0, 0)
        \<and> (1, 0, 0) \<notin> ran (m_mFibersToIndices s)
        \<and> ran (m_mFibersToIndices s) \<noteq> set (indices3 (2, 1, 1))
    | _ \<Rightarrow> False)
   \<and> (case execute [Spawn 5, Resume 0]
          \<lparr>body = [RecordIdxBlockKernel], getBlockSharedExternMemSizeBytes = (\<lambda>v. 0)\<rparr>
          \<lparr>sizeGridBlocks = (1, 1, 1), sizeBlockKernels = (2, 1, 1)\<rparr> initial of
        Unscheduled s \<Rightarrow>
          m_v3uiGridBlockIdx s = (0, 0, 0)
          \<and> (1, 0, 0) \<in> set (indices3 (sizeBlockKernels (m_workSize s)))
          \<and> m_mFibersToIndices s 5 = Some (0, 0, 0)
          \<and> (1, 0, 0) \<notin> ran (m_mFibersToIndices s)
      | _ \<Rightarrow> False)"
  by (simp add: eval_execute_defs eval_defs upt_rec)

section \<open>Every block comes to its end\<close>

lemma resume_shape:
  assumes inv: "block_inv prog n g s" and ok: "prog_ok prog"
    and i: "i < length (m_vFibersInBlock s)"
    and cr: "can_run prog (m_vFibersInBlock s ! i)"
    and res: "resume prog i s = Inr s'"
  shows "toSpawn s' = toSpawn s"
    and "recorded s' = recorded s
           @ (if f_status (m_vFibersInBlock s ! i) = Ready
              then op_record s (m_vFibersInBlock s ! i) (prog ! f_pc (m_vFibersInBlock s ! i))
              else [])"
    and "m_vFibersInBlock s' =
           (if f_status (m_vFibersInBlock s ! i) = Ready
               \<and> prog ! f_pc (m_vFibersInBlock s ! i) = SyncBlockKernels
            then (if Suc (suspended_count (m_vFibersInBlock s)) = n
                  then (map (notified (g mod 2)) (m_vFibersInBlock s))
                         [i := adv prog (m_vFibersInBlock s ! i)]
                  else (m_vFibersInBlock s)
                         [i := (m_vFibersInBlock s ! i)\<lparr>f_status := Suspended (g mod 2)\<rparr>])
            else (m_vFibersInBlock s)[i := adv prog (m_vFibersInBlock s ! i)])"
    and "m_v3uiGridBlockIdx s' = m_v3uiGridBlockIdx s"
proof -
  let ?fs = "m_vFibersInBlock s"
  let ?f = "?fs ! i"
  have "toSpawn s' = toSpawn s
    \<and> recorded s' = recorded s
           @ (if f_status ?f = Ready then op_record s ?f (prog ! f_pc ?f) else [])
    \<and> m_vFibersInBlock s' =
           (if f_status ?f = Ready \<and> prog ! f_pc ?f = SyncBlockKernels
            then (if Suc (suspended_count ?fs) = n
                  then (map (notified (g mod 2)) ?fs)[i := adv prog ?f]
                  else ?fs[i := ?f\<lparr>f_status := Suspended (g mod 2)\<rparr>])
            else ?fs[i := adv prog ?f])
    \<and> m_v3uiGridBlockIdx s' = m_v3uiGridBlockIdx s"
  proof (cases "f_status ?f")
    case Ready
    with res have ex: "exec_op prog i (prog ! f_pc ?f) s = Inr s'" by (simp add: resume_def)
    show ?thesis
    proof (cases "prog ! f_pc ?f")
      case Register
      with ex Ready show ?thesis
        by (auto simp: exec_op_def Let_def op_record_def adv_def)
    next
      case SyncBlockKernels
      show ?thesis
      proof (cases "Suc (suspended_count ?fs) = n")
        case True
        from block_inv_sync_release(1) [OF inv ok i Ready SyncBlockKernels True] ex SyncBlockKernels
        have "s' = advance prog i (set_phase (f_id ?f) (of_nat (Suc g))
                   (notify_all (g mod 2) (arrive_bar (g mod 2) 0 s)))"
          by simp
        moreover have "notified (g mod 2) = (\<lambda>f. if f_status f = Suspended (g mod 2)
                             then f\<lparr>f_status := Notified (g mod 2)\<rparr> else f)"
          by (rule ext) (simp add: notified_def)
        ultimately show ?thesis
          using Ready SyncBlockKernels True i
          by (simp add: op_record_def adv_def)
      next
        case False
        from block_inv_sync_suspend(1) [OF inv ok i Ready SyncBlockKernels False] ex SyncBlockKernels
        have "s' = suspend i (g mod 2) (arrive_bar (g mod 2)
                   (of_nat (n - Suc (suspended_count ?fs))) s)"
          by simp
        then show ?thesis
          using Ready SyncBlockKernels False
          by (simp add: op_record_def)
      qed
    next
      case EmplaceBack
      with ex Ready show ?thesis
        by (auto simp: exec_op_def Let_def op_record_def adv_def emplace_back_if_master_def)
    next
      case (ReturnBack sz m)
      with ex Ready show ?thesis
        by (auto simp: exec_op_def Let_def op_record_def adv_def return_back_def record_entry_def
            getIdxGridBlock_def split: sum.splits if_splits)
    next
      case GetIdxBlockKernel
      with ok have "0 < f_pc ?f" by (cases "f_pc ?f = 0") (auto simp: prog_ok_def)
      from getIdxBlockKernel_registered [OF inv ok i this] ex GetIdxBlockKernel Ready
      show ?thesis
        by (auto simp: exec_op_def Let_def op_record_def adv_def record_entry_def getIdxGridBlock_def)
    next
      case GetBlockSharedExternMem
      with ex Ready show ?thesis
        by (auto simp: exec_op_def Let_def op_record_def adv_def record_entry_def
            getIdxGridBlock_def getBlockSharedExternMem_def)
    qed
  next
    case (Notified b)
    from block_inv_notified(1) [OF inv i Notified] res Notified show ?thesis
      by (auto simp: adv_def)
  next
    case (Suspended b)
    with cr show ?thesis by (simp add: can_run_def)
  next
    case Done
    with cr show ?thesis by (simp add: can_run_def)
  qed
  then show "toSpawn s' = toSpawn s"
    and "recorded s' = recorded s
           @ (if f_status ?f = Ready then op_record s ?f (prog ! f_pc ?f) else [])"
    and "m_vFibersInBlock s' =
           (if f_status ?f = Ready \<and> prog ! f_pc ?f = SyncBlockKernels
            then (if Suc (suspended_count ?fs) = n
                  then (map (notified (g mod 2)) ?fs)[i := adv prog ?f]
                  else ?fs[i := ?f\<lparr>f_status := Suspended (g mod 2)\<rparr>])
            else ?fs[i := adv prog ?f])"
    and "m_v3uiGridBlockIdx s' = m_v3uiGridBlockIdx s"
    by blast+
qed

lemma sum_list_map_update:
  fixes h :: "'a \<Rightarrow> 'b::comm_monoid_add"
  shows "i < length xs \<Longrightarrow>
         sum_list (map h (xs[i := y])) + h (xs ! i) = sum_list (map h xs) + h y"
proof (induction xs arbitrary: i)
  case Nil
  then show ?case by simp
next
  case (Cons x xs)
  show ?case
  proof (cases i)
    case 0
    then show ?thesis by (simp add: ac_simps)
  next
    case (Suc j)
    with Cons.prems have "j < length xs" by simp
    from Cons.IH [OF this] Suc show ?thesis
      by (simp add: ac_simps)
  qed
qed

lemma fiber_weight_notified [simp]: "fiber_weight prog (notified b f) = fiber_weight prog f"
  by (simp add: fiber_weight_def notified_def)

lemma notified_nth_ready:
  "i < length fs \<Longrightarrow> f_status (fs ! i) = Ready \<Longrightarrow> map (notified b) fs ! i = fs ! i"
  by (simp add: notified_def)

lemma block_measure_step:
  assumes inv: "block_inv prog n g s" and ok: "prog_ok prog"
    and en: "enabled prog e s" and step: "step prog e s = Inr s'"
  shows "block_measure prog s' < block_measure prog s"
proof (cases e)
  case (Spawn idFiber)
  with en obtain v rest where ts: "toSpawn s = v # rest"
    by (cases "toSpawn s") (auto simp: enabled_def)
  with step Spawn have "s' = s\<lparr>m_vFibersInBlock := m_vFibersInBlock s @
      [\<lparr>f_id = idFiber, f_arg = v, f_pc = 0, f_status = Ready\<rparr>], toSpawn := rest\<rparr>"
    by (simp add: step_def spawn_def)
  with ts show ?thesis by (simp add: block_measure_def fiber_weight_def)
next
  case (Resume i)
  let ?fs = "m_vFibersInBlock s"
  let ?f = "?fs ! i"
  let ?w = "fiber_weight prog"
  from en Resume have i: "i < length ?fs" and cr: "can_run prog ?f"
    by (simp_all add: enabled_def)
  from step Resume have res: "resume prog i s = Inr s'" by (simp add: step_def)
  note shape = resume_shape [OF inv ok i cr res]
  from inv i have "fiber_ok prog g ?f" by (simp add: block_inv_def)
  with cr have lt: "f_pc ?f < length prog"
    by (cases "f_status ?f") (simp_all add: fiber_ok_def can_run_def)
  from cr have st: "f_status ?f = Ready \<or> (\<exists>b. f_status ?f = Notified b)"
    by (cases "f_status ?f") (simp_all add: can_run_def)
  have wadv: "?w (adv prog ?f) < ?w ?f"
    using lt st by (auto simp: fiber_weight_def adv_def)
  have wsus: "f_status ?f = Ready \<Longrightarrow> ?w (?f\<lparr>f_status := Suspended b\<rparr>) < ?w ?f" for b
    by (simp add: fiber_weight_def)
  have "sum_list (map ?w (m_vFibersInBlock s')) < sum_list (map ?w ?fs)"
  proof (cases "f_status ?f = Ready \<and> prog ! f_pc ?f = SyncBlockKernels")
    case False
    with shape(3) have "m_vFibersInBlock s' = ?fs[i := adv prog ?f]" by simp
    with sum_list_map_update [OF i, of ?w "adv prog ?f"] wadv show ?thesis by simp
  next
    case True
    show ?thesis
    proof (cases "Suc (suspended_count ?fs) = n")
      case False
      with True shape(3)
      have "m_vFibersInBlock s' = ?fs[i := ?f\<lparr>f_status := Suspended (g mod 2)\<rparr>]" by simp
      with sum_list_map_update [OF i, of ?w "?f\<lparr>f_status := Suspended (g mod 2)\<rparr>"]
        wsus [of "g mod 2"] True
      show ?thesis by simp
    next
      case last: True
      let ?ns = "map (notified (g mod 2)) ?fs"
      from True last shape(3) have fs': "m_vFibersInBlock s' = ?ns[i := adv prog ?f]" by simp
      have eq: "sum_list (map ?w ?ns) = sum_list (map ?w ?fs)" by (simp add: comp_def)
      have nth: "?ns ! i = ?f" using True i by (simp add: notified_def)
      have "i < length ?ns" using i by simp
      from sum_list_map_update [OF this, of ?w "adv prog ?f"]
      have "sum_list (map ?w (?ns[i := adv prog ?f])) + ?w ?f
          = sum_list (map ?w ?fs) + ?w (adv prog ?f)"
        unfolding nth eq .
      with wadv show ?thesis unfolding fs' by linarith
    qed
  qed
  with shape(1) show ?thesis by (simp add: block_measure_def)
qed

lemma fresh_fiber_id: "\<exists>idFiber :: fiber_id. idFiber \<notin> set ids"
  using ex_new_if_finite [OF infinite_UNIV_nat, of "set ids"] by simp

lemma block_progress:
  assumes inv: "block_inv prog n g s" and ok: "prog_ok prog" and nj: "\<not> all_joined s"
  shows "\<exists>e. enabled prog e s"
proof (cases "running s")
  case (Some i)
  let ?f = "m_vFibersInBlock s ! i"
  from inv Some have i: "i < length (m_vFibersInBlock s)" and st: "f_status ?f = Ready"
    by (simp_all add: block_inv_def running_ok_def)
  from inv i have "fiber_ok prog g ?f" by (simp add: block_inv_def)
  with st have "can_run prog ?f" by (simp add: fiber_ok_def can_run_def)
  with i Some have "enabled prog (Resume i) s" by (simp add: enabled_def)
  then show ?thesis ..
next
  case None
  show ?thesis
  proof (cases "toSpawn s = []")
    case False
    from fresh_fiber_id [of "alive_ids s"] obtain idFiber where "idFiber \<notin> set (alive_ids s)" ..
    with None False have "enabled prog (Spawn idFiber) s" by (simp add: enabled_def)
    then show ?thesis ..
  next
    case True
    let ?fs = "m_vFibersInBlock s"
    from inv have fok: "\<forall>f \<in> set ?fs. fiber_ok prog g f" and bars: "bars_ok n g s"
      and len: "length ?fs + length (toSpawn s) = n"
      by (simp_all add: block_inv_def)
    from nj True obtain j where j: "j < length ?fs" "f_status (?fs ! j) \<noteq> Done"
      by (auto simp: all_joined_def list_all_length)
    have "\<exists>i < length ?fs. can_run prog (?fs ! i)"
    proof (rule ccontr)
      assume no: "\<not> (\<exists>i < length ?fs. can_run prog (?fs ! i))"
      have sd: "is_suspended (f_status (?fs ! i)) \<or> f_status (?fs ! i) = Done"
        if "i < length ?fs" for i
      proof -
        from fok that have "fiber_ok prog g (?fs ! i)" by simp
        with no that show ?thesis
          by (cases "f_status (?fs ! i)") (auto simp: can_run_def fiber_ok_def)
      qed
      from sd [OF j(1)] j(2) have sj: "is_suspended (f_status (?fs ! j))" by simp
      then have "suspended_count ?fs \<noteq> 0"
        using j(1) by (auto simp: suspended_count_zero)
      with bars len True have "suspended_count ?fs < length ?fs"
        by (auto simp: bars_ok_def Let_def)
      then have "\<not> (\<forall>f \<in> set ?fs. is_suspended (f_status f))"
        using count_list_bool [of "map (\<lambda>f. is_suspended (f_status f)) ?fs"]
          count_list_pos [of "map (\<lambda>f. is_suspended (f_status f)) ?fs" False]
        by (auto simp: suspended_count_def)
      then obtain d where d: "d < length ?fs" "\<not> is_suspended (f_status (?fs ! d))"
        by (auto simp: in_set_conv_nth)
      with sd [OF d(1)] have dd: "f_status (?fs ! d) = Done" by simp
      from fok d(1) have "fiber_ok prog g (?fs ! d)" by simp
      from fiber_ok_Done [OF this dd] have g: "g = syncs prog" .
      from fok j(1) have "fiber_ok prog g (?fs ! j)" by simp
      with sj have lt: "f_pc (?fs ! j) < length prog"
        and op: "prog ! f_pc (?fs ! j) = SyncBlockKernels"
        and pg: "passed prog (?fs ! j) = g"
        by (cases "f_status (?fs ! j)"; simp add: fiber_ok_def)+
      from syncs_take_Suc [OF lt] op pg
      have "syncs (take (Suc (f_pc (?fs ! j))) prog) = Suc g" by (simp add: passed_def)
      with syncs_take_le [of "Suc (f_pc (?fs ! j))" prog] g show False by simp
    qed
    then obtain i where "i < length ?fs" "can_run prog (?fs ! i)" by blast
    with None have "enabled prog (Resume i) s" by (simp add: enabled_def)
    then show ?thesis ..
  qed
qed

lemma step_succeeds:
  assumes inv: "block_inv prog n g s" and ok: "prog_ok prog"
    and en: "enabled prog e s" and na: "\<forall>sz m. ReturnBack sz m \<notin> set prog"
  shows "\<exists>s'. step prog e s = Inr s'"
proof (cases "step prog e s")
  case (Inr s')
  then show ?thesis by blast
next
  case (Inl err)
  from step_no_assertion [OF inv ok en Inl] obtain i sz m where
    e: "e = Resume i" and op: "prog ! f_pc (m_vFibersInBlock s ! i) = ReturnBack sz m"
    by blast
  let ?f = "m_vFibersInBlock s ! i"
  from en e have i: "i < length (m_vFibersInBlock s)" and cr: "can_run prog ?f"
    by (simp_all add: enabled_def)
  from inv i have "fiber_ok prog g ?f" by (simp add: block_inv_def)
  with cr have "f_pc ?f < length prog"
    by (cases "f_status ?f") (simp_all add: fiber_ok_def can_run_def)
  then have "prog ! f_pc ?f \<in> set prog" by simp
  with op na show ?thesis by simp
qed

lemma run_fibers_joined: "all_joined s \<Longrightarrow> run_fibers prog es s = Finished (s, es)"
  by (cases es) simp_all

text \<open>From every state that a block can reach the fibers can be run to their end.\<close>
lemma block_completion:
  assumes ok: "prog_ok prog" and na: "\<forall>sz m. ReturnBack sz m \<notin> set prog"
  shows "block_inv prog n g s \<Longrightarrow>
         \<exists>es s1. \<forall>rest. run_fibers prog (es @ rest) s = Finished (s1, rest)"
proof (induction "block_measure prog s" arbitrary: s g rule: less_induct)
  case less
  show ?case
  proof (cases "all_joined s")
    case True
    then have "\<forall>rest. run_fibers prog ([] @ rest) s = Finished (s, rest)"
      by (simp add: run_fibers_joined)
    then show ?thesis by blast
  next
    case False
    from block_progress [OF less.prems ok False] obtain e where en: "enabled prog e s" ..
    from step_succeeds [OF less.prems ok en na] obtain s' where st: "step prog e s = Inr s'" ..
    from block_measure_step [OF less.prems ok en st]
    have m: "block_measure prog s' < block_measure prog s" .
    from block_inv_step [OF less.prems ok en st] less.hyps [OF m]
    obtain es s1 where "\<forall>rest. run_fibers prog (es @ rest) s' = Finished (s1, rest)"
      by blast
    with False en st have "\<forall>rest. run_fibers prog ((e # es) @ rest) s = Finished (s1, rest)"
      by simp
    then show ?thesis by blast
  qed
qed

lemma blocks_loop_completion:
  assumes ok: "prog_ok prog" and na: "\<forall>sz m. ReturnBack sz m \<notin> set prog"
    and lt: "prod3 sz < 2 ^ 64"
  shows "idle s \<Longrightarrow> m_uiNumKernelsPerBlock s = of_nat (prod3 sz) \<Longrightarrow>
         \<exists>es s'. blocks_loop prog sz bs es s = Finished (s', [])"
proof (induction bs arbitrary: s)
  case Nil
  have "blocks_loop prog sz [] [] s = Finished (s, [])" by simp
  then show ?case by blast
next
  case (Cons b bs)
  note inv = block_inv_begin [OF Cons.prems lt, of prog b]
  from block_completion [OF ok na inv] obtain es1 s1 where
    run: "\<forall>rest. run_fibers prog (es1 @ rest) (begin_block sz b s) = Finished (s1, rest)"
    by blast
  from run_fibers_inv(1) [OF inv ok run [rule_format]] obtain g' where
    "block_inv prog (prod3 sz) g' s1" "all_joined s1" by blast
  from idle_end_block [OF this] Cons.IH obtain es2 s' where
    "blocks_loop prog sz bs es2 (end_block s1) = Finished (s', [])" by blast
  with run have "blocks_loop prog sz (b # bs) (es1 @ es2) s = Finished (s', [])" by simp
  then show ?case by blast
qed

section \<open>The output of the kernels\<close>

lemma idx_of_fiber_simps [simp]:
  "idx_of_fiber prog b (f\<lparr>f_status := st\<rparr>) = idx_of_fiber prog b f"
  "idx_of_fiber prog b (notified w f) = idx_of_fiber prog b f"
  by (simp_all add: idx_of_fiber_def notified_def)

lemma idx_of_fiber_adv:
  "f_pc f < length prog \<Longrightarrow>
   idx_of_fiber prog b (adv prog f)
     = idx_of_fiber prog b f
       + (if prog ! f_pc f = GetIdxBlockKernel then {#RecIdx b (f_arg f)#} else {#})"
  by (simp add: idx_of_fiber_def adv_def take_Suc_conv_app_nth)

lemma idx_recorded_notified [simp]:
  "idx_recorded prog b (map (notified w) fs) = idx_recorded prog b fs"
  by (simp add: idx_recorded_def comp_def)

lemma idx_recorded_update:
  "i < length fs \<Longrightarrow>
   idx_recorded prog b (fs[i := f]) + idx_of_fiber prog b (fs ! i)
     = idx_recorded prog b fs + idx_of_fiber prog b f"
  unfolding idx_recorded_def by (rule sum_list_map_update)

lemma mset_idx_op_record:
  "mset (filter is_RecIdx (op_record s f op))
     = (if op = GetIdxBlockKernel then {#RecIdx (m_v3uiGridBlockIdx s) (f_arg f)#} else {#})"
  by (cases op) (simp_all add: op_record_def)

lemma other_op_record:
  "op \<noteq> GetBlockSharedExternMem \<Longrightarrow> \<forall>sz m. op \<noteq> ReturnBack sz m \<Longrightarrow>
   filter (\<lambda>e. \<not> is_RecIdx e) (op_record s f op) = []"
  by (cases op) (simp_all add: op_record_def)

lemma trace_step:
  assumes inv: "block_inv prog n g s" and ok: "prog_ok prog"
    and en: "enabled prog e s" and step: "step prog e s = Inr s'"
  shows "mset (filter is_RecIdx (recorded s'))
           + idx_recorded prog (m_v3uiGridBlockIdx s) (m_vFibersInBlock s)
         = mset (filter is_RecIdx (recorded s))
           + idx_recorded prog (m_v3uiGridBlockIdx s) (m_vFibersInBlock s')"
    and "GetBlockSharedExternMem \<notin> set prog \<Longrightarrow> \<forall>sz m. ReturnBack sz m \<notin> set prog \<Longrightarrow>
         filter (\<lambda>e. \<not> is_RecIdx e) (recorded s') = filter (\<lambda>e. \<not> is_RecIdx e) (recorded s)"
proof -
  let ?b = "m_v3uiGridBlockIdx s"
  let ?fs = "m_vFibersInBlock s"
  have "mset (filter is_RecIdx (recorded s')) + idx_recorded prog ?b ?fs
         = mset (filter is_RecIdx (recorded s)) + idx_recorded prog ?b (m_vFibersInBlock s')
    \<and> (GetBlockSharedExternMem \<notin> set prog \<longrightarrow> (\<forall>sz m. ReturnBack sz m \<notin> set prog) \<longrightarrow>
         filter (\<lambda>e. \<not> is_RecIdx e) (recorded s') = filter (\<lambda>e. \<not> is_RecIdx e) (recorded s))"
  proof (cases e)
    case (Spawn idFiber)
    with en obtain v rest where ts: "toSpawn s = v # rest"
      by (cases "toSpawn s") (auto simp: enabled_def)
    with step Spawn have "s' = s\<lparr>m_vFibersInBlock := ?fs @
        [\<lparr>f_id = idFiber, f_arg = v, f_pc = 0, f_status = Ready\<rparr>], toSpawn := rest\<rparr>"
      by (simp add: step_def spawn_def)
    then show ?thesis by (simp add: idx_recorded_def idx_of_fiber_def)
  next
    case (Resume i)
    let ?f = "?fs ! i"
    from en Resume have i: "i < length ?fs" and cr: "can_run prog ?f"
      by (simp_all add: enabled_def)
    from step Resume have res: "resume prog i s = Inr s'" by (simp add: step_def)
    note shape = resume_shape [OF inv ok i cr res]
    from inv i have fok: "fiber_ok prog g ?f" by (simp add: block_inv_def)
    with cr have lt: "f_pc ?f < length prog"
      by (cases "f_status ?f") (simp_all add: fiber_ok_def can_run_def)
    then have mem: "prog ! f_pc ?f \<in> set prog" by simp
    have notif: "prog ! f_pc ?f = SyncBlockKernels" if "f_status ?f \<noteq> Ready"
      using fok cr that by (cases "f_status ?f") (simp_all add: fiber_ok_def can_run_def)
    have other: "filter (\<lambda>e. \<not> is_RecIdx e) (recorded s') = filter (\<lambda>e. \<not> is_RecIdx e) (recorded s)"
      if "GetBlockSharedExternMem \<notin> set prog" "\<forall>sz m. ReturnBack sz m \<notin> set prog"
    proof -
      from mem that have "prog ! f_pc ?f \<noteq> GetBlockSharedExternMem"
        "\<forall>sz m. prog ! f_pc ?f \<noteq> ReturnBack sz m"
        by metis+
      from other_op_record [OF this, of s ?f] shape(2) show ?thesis by simp
    qed
    have rec: "mset (filter is_RecIdx (recorded s'))
        = mset (filter is_RecIdx (recorded s))
          + (if f_status ?f = Ready \<and> prog ! f_pc ?f = GetIdxBlockKernel
             then {#RecIdx ?b (f_arg ?f)#} else {#})"
    proof (cases "f_status ?f = Ready")
      case True
      with shape(2) have "recorded s' = recorded s @ op_record s ?f (prog ! f_pc ?f)" by simp
      then have "mset (filter is_RecIdx (recorded s'))
          = mset (filter is_RecIdx (recorded s))
            + mset (filter is_RecIdx (op_record s ?f (prog ! f_pc ?f)))"
        by (simp only: filter_append mset_append)
      with True show ?thesis by (simp only: mset_idx_op_record simp_thms)
    next
      case False
      with shape(2) show ?thesis by simp
    qed
    have "idx_recorded prog ?b (m_vFibersInBlock s')
        = idx_recorded prog ?b ?fs
          + (if f_status ?f = Ready \<and> prog ! f_pc ?f = GetIdxBlockKernel
             then {#RecIdx ?b (f_arg ?f)#} else {#})"
    proof (cases "f_status ?f = Ready \<and> prog ! f_pc ?f = SyncBlockKernels")
      case False
      with shape(3) have fs': "m_vFibersInBlock s' = ?fs[i := adv prog ?f]" by simp
      from idx_recorded_update [OF i, of prog ?b "adv prog ?f"] idx_of_fiber_adv [OF lt, of ?b]
        notif
      show ?thesis unfolding fs' by (auto split: if_splits)
    next
      case True
      show ?thesis
      proof (cases "Suc (suspended_count ?fs) = n")
        case False
        with True shape(3)
        have fs': "m_vFibersInBlock s' = ?fs[i := ?f\<lparr>f_status := Suspended (g mod 2)\<rparr>]" by simp
        from idx_recorded_update [OF i, of prog ?b "?f\<lparr>f_status := Suspended (g mod 2)\<rparr>"] True
        show ?thesis unfolding fs' by simp
      next
        case last: True
        let ?ns = "map (notified (g mod 2)) ?fs"
        from True last shape(3) have fs': "m_vFibersInBlock s' = ?ns[i := adv prog ?f]" by simp
        have nth: "?ns ! i = ?f" using True i by (simp add: notified_def)
        have "i < length ?ns" using i by simp
        from idx_recorded_update [OF this, of prog ?b "adv prog ?f"] idx_of_fiber_adv [OF lt, of ?b]
          True
        show ?thesis unfolding fs' nth by simp
      qed
    qed
    with rec other show ?thesis by (simp add: ac_simps)
  qed
  then show "mset (filter is_RecIdx (recorded s')) + idx_recorded prog ?b ?fs
         = mset (filter is_RecIdx (recorded s)) + idx_recorded prog ?b (m_vFibersInBlock s')"
    and "GetBlockSharedExternMem \<notin> set prog \<Longrightarrow> \<forall>sz m. ReturnBack sz m \<notin> set prog \<Longrightarrow>
         filter (\<lambda>e. \<not> is_RecIdx e) (recorded s') = filter (\<lambda>e. \<not> is_RecIdx e) (recorded s)"
    by blast+
qed

lemma run_fibers_trace:
  assumes ok: "prog_ok prog"
  shows "block_inv prog n g s \<Longrightarrow> run_fibers prog es s = Finished (s1, rest) \<Longrightarrow>
     m_v3uiGridBlockIdx s1 = m_v3uiGridBlockIdx s
     \<and> map f_arg (m_vFibersInBlock s1) @ toSpawn s1 = map f_arg (m_vFibersInBlock s) @ toSpawn s
     \<and> mset (filter is_RecIdx (recorded s1))
           + idx_recorded prog (m_v3uiGridBlockIdx s) (m_vFibersInBlock s)
         = mset (filter is_RecIdx (recorded s))
           + idx_recorded prog (m_v3uiGridBlockIdx s) (m_vFibersInBlock s1)
     \<and> (GetBlockSharedExternMem \<notin> set prog \<longrightarrow> (\<forall>sz m. ReturnBack sz m \<notin> set prog) \<longrightarrow>
         filter (\<lambda>e. \<not> is_RecIdx e) (recorded s1) = filter (\<lambda>e. \<not> is_RecIdx e) (recorded s))"
proof (induction es arbitrary: s g)
  case Nil
  then show ?case by (auto split: if_splits)
next
  case (Cons e es)
  show ?case
  proof (cases "all_joined s")
    case True
    with Cons.prems show ?thesis by auto
  next
    case False
    with Cons.prems obtain s2 where en: "enabled prog e s" and st: "step prog e s = Inr s2"
      and run: "run_fibers prog es s2 = Finished (s1, rest)"
      by (auto split: if_splits sum.splits)
    from block_inv_step [OF Cons.prems(1) ok en st] obtain g' where
      inv2: "block_inv prog n g' s2" by blast
    note ih = Cons.IH [OF inv2 run]
    note fr = step_frame [OF st en]
    note tr = trace_step [OF Cons.prems(1) ok en st]
    from ih fr(1) have a: "m_v3uiGridBlockIdx s1 = m_v3uiGridBlockIdx s" by simp
    from ih fr(5) have b: "map f_arg (m_vFibersInBlock s1) @ toSpawn s1
        = map f_arg (m_vFibersInBlock s) @ toSpawn s" by simp
    let ?b = "m_v3uiGridBlockIdx s"
    let ?R1 = "mset (filter is_RecIdx (recorded s1))"
    let ?R2 = "mset (filter is_RecIdx (recorded s2))"
    let ?R = "mset (filter is_RecIdx (recorded s))"
    let ?I = "idx_recorded prog ?b (m_vFibersInBlock s)"
    let ?I2 = "idx_recorded prog ?b (m_vFibersInBlock s2)"
    let ?I1 = "idx_recorded prog ?b (m_vFibersInBlock s1)"
    from ih have A: "?R1 + ?I2 = ?R2 + ?I1" unfolding fr(1) by blast
    from tr(1) have B: "?R2 + ?I = ?R + ?I2" .
    have "(?R1 + ?I) + (?R2 + ?I2) = (?R1 + ?I2) + (?R2 + ?I)"
      by (simp only: ac_simps)
    also have "\<dots> = (?R2 + ?I1) + (?R + ?I2)"
      by (simp only: A B)
    also have "\<dots> = (?R + ?I1) + (?R2 + ?I2)"
      by (simp only: ac_simps)
    finally have c: "?R1 + ?I = ?R + ?I1"
      by (simp only: add_right_cancel)
    from ih tr(2) have d: "GetBlockSharedExternMem \<notin> set prog \<longrightarrow>
        (\<forall>sz m. ReturnBack sz m \<notin> set prog) \<longrightarrow>
         filter (\<lambda>e. \<not> is_RecIdx e) (recorded s1) = filter (\<lambda>e. \<not> is_RecIdx e) (recorded s)"
      by simp
    from a b c d show ?thesis by blast
  qed
qed

lemma run_fibers_never_fails:
  assumes ok: "prog_ok prog" and na: "\<forall>sz m. ReturnBack sz m \<notin> set prog"
  shows "block_inv prog n g s \<Longrightarrow> run_fibers prog es s \<noteq> Failed err s1"
proof (induction es arbitrary: s g)
  case Nil
  then show ?case by simp
next
  case (Cons e es)
  show ?case
  proof (cases "\<not> all_joined s \<and> enabled prog e s")
    case False
    then show ?thesis by auto
  next
    case True
    then have en: "enabled prog e s" by simp
    from step_succeeds [OF Cons.prems ok en na] obtain s2 where st: "step prog e s = Inr s2" ..
    from block_inv_step [OF Cons.prems ok en st] obtain g' where "block_inv prog n g' s2" by blast
    from Cons.IH [OF this] True st show ?thesis by simp
  qed
qed

lemma sum_list_replicate_mset_one:
  "sum_list (map (\<lambda>v. replicate_mset (Suc 0) (h v)) vs) = mset (map h vs)"
  by (induction vs) simp_all

text \<open>A block, from its start to the clean up.\<close>
lemma block_output:
  assumes ok: "prog_ok prog" and lt: "prod3 sz < 2 ^ 64"
    and idle: "idle s" and N: "m_uiNumKernelsPerBlock s = of_nat (prod3 sz)"
    and run: "run_fibers prog es (begin_block sz b s) = Finished (s1, rest)"
  shows "map f_arg (m_vFibersInBlock s1) = indices3 sz"
    and "mset (filter is_RecIdx (recorded (end_block s1)))
           = mset (filter is_RecIdx (recorded s))
             + sum_list (map (\<lambda>v. replicate_mset (count_list prog GetIdxBlockKernel) (RecIdx b v))
                 (indices3 sz))"
    and "GetBlockSharedExternMem \<notin> set prog \<Longrightarrow> \<forall>sz m. ReturnBack sz m \<notin> set prog \<Longrightarrow>
         filter (\<lambda>e. \<not> is_RecIdx e) (recorded (end_block s1))
           = filter (\<lambda>e. \<not> is_RecIdx e) (recorded s)"
    and "idle (end_block s1)" and "m_uiNumKernelsPerBlock (end_block s1) = of_nat (prod3 sz)"
proof -
  let ?s0 = "begin_block sz b s"
  note inv = block_inv_begin [OF idle N lt, of prog b]
  from run_fibers_inv(1) [OF inv ok run] obtain g' where
    inv1: "block_inv prog (prod3 sz) g' s1" and j: "all_joined s1" by blast
  from idle_end_block [OF inv1 j]
  show "idle (end_block s1)" "m_uiNumKernelsPerBlock (end_block s1) = of_nat (prod3 sz)" .
  note tr = run_fibers_trace [OF ok inv run]
  have s0: "m_vFibersInBlock ?s0 = []" "toSpawn ?s0 = indices3 sz" "m_v3uiGridBlockIdx ?s0 = b"
    "recorded ?s0 = recorded s"
    using idle by (simp_all add: begin_block_def idle_def)
  from j have ts: "toSpawn s1 = []" and dn: "\<forall>f \<in> set (m_vFibersInBlock s1). f_status f = Done"
    by (simp_all add: all_joined_def list_all_iff)
  from tr ts s0 show args: "map f_arg (m_vFibersInBlock s1) = indices3 sz" by simp
  have pcs: "f_pc f = length prog" if "f \<in> set (m_vFibersInBlock s1)" for f
  proof -
    from inv1 that have "fiber_ok prog g' f" by (simp add: block_inv_def)
    with dn that show ?thesis by (simp add: fiber_ok_def)
  qed
  have "map (idx_of_fiber prog b) (m_vFibersInBlock s1)
      = map (\<lambda>f. replicate_mset (count_list prog GetIdxBlockKernel) (RecIdx b (f_arg f)))
          (m_vFibersInBlock s1)"
    using pcs by (simp add: idx_of_fiber_def)
  also have "\<dots> = map (\<lambda>v. replicate_mset (count_list prog GetIdxBlockKernel) (RecIdx b v))
      (map f_arg (m_vFibersInBlock s1))"
    by (simp add: comp_def)
  finally have "idx_recorded prog b (m_vFibersInBlock s1)
      = sum_list (map (\<lambda>v. replicate_mset (count_list prog GetIdxBlockKernel) (RecIdx b v))
          (indices3 sz))"
    by (simp add: idx_recorded_def args)
  with tr s0 show "mset (filter is_RecIdx (recorded (end_block s1)))
           = mset (filter is_RecIdx (recorded s))
             + sum_list (map (\<lambda>v. replicate_mset (count_list prog GetIdxBlockKernel) (RecIdx b v))
                 (indices3 sz))"
    by (simp add: idx_recorded_def end_block_def)
  from tr s0 show "GetBlockSharedExternMem \<notin> set prog \<Longrightarrow> \<forall>sz m. ReturnBack sz m \<notin> set prog \<Longrightarrow>
         filter (\<lambda>e. \<not> is_RecIdx e) (recorded (end_block s1))
           = filter (\<lambda>e. \<not> is_RecIdx e) (recorded s)"
    by (simp add: end_block_def)
qed

lemma mset_split_idx:
  "mset xs = mset (filter is_RecIdx xs) + mset (filter (\<lambda>e. \<not> is_RecIdx e) xs)"
  by (induction xs) simp_all

lemma blocks_loop_output:
  assumes ok: "prog_ok prog" and lt: "prod3 sz < 2 ^ 64"
    and one: "count_list prog GetIdxBlockKernel = 1"
    and simple: "GetBlockSharedExternMem \<notin> set prog" "\<forall>sz m. ReturnBack sz m \<notin> set prog"
  shows "idle s \<Longrightarrow> m_uiNumKernelsPerBlock s = of_nat (prod3 sz) \<Longrightarrow>
         blocks_loop prog sz bs es s = Finished (s', rest) \<Longrightarrow>
         mset (recorded s') = mset (recorded s) + mset (expected_output sz bs)"
    and "idle s \<Longrightarrow> m_uiNumKernelsPerBlock s = of_nat (prod3 sz) \<Longrightarrow>
         blocks_loop prog sz bs es s \<noteq> Failed err s2"
proof (induction bs arbitrary: s es)
  case Nil
  { case 1 then show ?case by (simp add: expected_output_def) }
  { case 2 then show ?case by simp }
next
  case (Cons b bs)
  { case 1
    from 1(3) obtain s1 es1 where run: "run_fibers prog es (begin_block sz b s) = Finished (s1, es1)"
      and loop: "blocks_loop prog sz bs es1 (end_block s1) = Finished (s', rest)"
      by (auto split: outcome.splits)
    note out = block_output [OF ok lt 1(1,2) run]
    from out(2) one have a: "mset (filter is_RecIdx (recorded (end_block s1)))
        = mset (filter is_RecIdx (recorded s)) + mset (map (RecIdx b) (indices3 sz))"
      by (simp add: sum_list_replicate_mset_one)
    from out(3) [OF simple] have b: "filter (\<lambda>e. \<not> is_RecIdx e) (recorded (end_block s1))
        = filter (\<lambda>e. \<not> is_RecIdx e) (recorded s)" .
    let ?X = "mset (map (RecIdx b) (indices3 sz))"
    have "mset (recorded (end_block s1))
        = mset (filter is_RecIdx (recorded (end_block s1)))
          + mset (filter (\<lambda>e. \<not> is_RecIdx e) (recorded (end_block s1)))"
      by (rule mset_split_idx)
    also have "\<dots> = (mset (filter is_RecIdx (recorded s)) + ?X)
          + mset (filter (\<lambda>e. \<not> is_RecIdx e) (recorded s))"
      by (simp only: a b)
    also have "\<dots> = (mset (filter is_RecIdx (recorded s))
          + mset (filter (\<lambda>e. \<not> is_RecIdx e) (recorded s))) + ?X"
      by (simp only: ac_simps)
    also have "\<dots> = mset (recorded s) + ?X"
      by (simp only: mset_split_idx [symmetric])
    finally have blk: "mset (recorded (end_block s1)) = mset (recorded s) + ?X" .
    from Cons.IH(1) [OF out(4,5) loop]
    have "mset (recorded s') = (mset (recorded s) + ?X) + mset (expected_output sz bs)"
      by (simp only: blk)
    also have "\<dots> = mset (recorded s) + mset (expected_output sz (b # bs))"
      by (simp add: expected_output_def)
    finally show ?case . }
  { case 2
    note inv = block_inv_begin [OF 2(1,2) lt, of prog b]
    show ?case
    proof (cases "run_fibers prog es (begin_block sz b s)")
      case (Finished p)
      obtain s1 es1 where p: "p = (s1, es1)" by (cases p)
      note out = block_output [OF ok lt 2(1,2) Finished [unfolded p]]
      from Cons.IH(2) [OF out(4,5)] Finished p show ?thesis by simp
    next
      case (Failed err' s3)
      with run_fibers_never_fails [OF ok simple(2) inv] show ?thesis by blast
    next
      case (Unscheduled s4)
      then show ?thesis by simp
    qed }
qed

lemma distinct_concat_map:
  assumes "distinct xs" and "\<And>x. x \<in> set xs \<Longrightarrow> distinct (f x)"
    and "\<And>x y. x \<in> set xs \<Longrightarrow> y \<in> set xs \<Longrightarrow> x \<noteq> y \<Longrightarrow> set (f x) \<inter> set (f y) = {}"
  shows "distinct (concat (map f xs))"
  using assms
proof (induction xs)
  case Nil
  then show ?case by simp
next
  case (Cons x xs)
  have "set (f x) \<inter> set (f y) = {}" if "y \<in> set xs" for y
    using Cons.prems(3) [of x y] Cons.prems(1) that by auto
  with Cons show ?case by auto
qed

lemma distinct_indices3: "distinct (indices3 v)"
proof -
  obtain x y z where v: "v = (x, y, z)" by (cases v)
  have row: "distinct (map (\<lambda>a. (a, b, c)) [0..<x])" for b c :: nat
    by (simp add: distinct_map inj_on_def)
  have plane: "distinct (concat (map (\<lambda>b. map (\<lambda>a. (a, b, c)) [0..<x]) [0..<y]))" for c :: nat
    by (rule distinct_concat_map) (auto simp: row)
  have "distinct (concat (map (\<lambda>c. concat (map (\<lambda>b. map (\<lambda>a. (a, b, c)) [0..<x]) [0..<y])) [0..<z]))"
    by (rule distinct_concat_map) (auto simp: plane)
  then show ?thesis by (simp add: v indices3_def)
qed

lemma distinct_expected_output: "distinct bs \<Longrightarrow> distinct (expected_output sz bs)"
  unfolding expected_output_def
  by (rule distinct_concat_map) (auto simp: distinct_map inj_on_def distinct_indices3)

lemma record_kernel_code:
  "fiberKernel [RecordIdxBlockKernel]
     = [Register, SyncBlockKernels, GetIdxBlockKernel, SyncBlockKernels]"
  by (simp add: fiberKernel_def)

text \<open>
  C6. Let the body of the kernel be the one operation that writes the index of the
  kernel in its block to the output, let the executor be between two blocks, and let the
  number of kernels of a block be at most the maximum. Then, for every grid: whatever the
  scheduling, if \<open>execute\<close> returns then the output has grown, as a multiset, by exactly
  one entry for every block of the grid and every index of a block, the entry of that
  block and that index (these entries are pairwise different); \<open>execute\<close> never fails;
  there is a scheduling with which it returns; and when the joins of a block have
  returned, the fibers of the block are, in the order of the loops, one for each index of
  the block, each holding that index as its argument.
\<close>
theorem execute_records_every_lane_once:
  assumes idle: "idle s0"
    and le: "getSizeBlockKernelsLinear workSize \<le> getSizeBlockKernelsLinearMax"
    and k: "body k = [RecordIdxBlockKernel]"
  shows "(\<forall>es s' rest. execute es k workSize s0 = Finished (s', rest) \<longrightarrow>
            mset (recorded s') = mset (recorded s0)
              + mset (expected_output (sizeBlockKernels workSize) (indices3 (sizeGridBlocks workSize))))
    \<and> distinct (expected_output (sizeBlockKernels workSize) (indices3 (sizeGridBlocks workSize)))
    \<and> (\<forall>es err s1. execute es k workSize s0 \<noteq> Failed err s1)
    \<and> (\<exists>es s'. execute es k workSize s0 = Finished (s', []))
    \<and> (\<forall>b es s s1 rest.
          idle s \<and> m_uiNumKernelsPerBlock s = of_nat (prod3 (sizeBlockKernels workSize))
          \<and> run_fibers (fiberKernel (body k)) es (begin_block (sizeBlockKernels workSize) b s)
              = Finished (s1, rest) \<longrightarrow>
          map f_arg (m_vFibersInBlock s1) = indices3 (sizeBlockKernels workSize))"
proof -
  let ?sz = "sizeBlockKernels workSize"
  let ?bs = "indices3 (sizeGridBlocks workSize)"
  let ?prog = "fiberKernel (body k)"
  let ?s3 = "s0\<lparr>m_workSize := workSize, m_uiNumKernelsPerBlock := of_nat (prod3 ?sz),
      m_vuiExternalSharedMem := resize (getBlockSharedExternMemSizeBytes k ?sz) (m_vuiExternalSharedMem s0)\<rparr>"
  from le have le': "prod3 ?sz \<le> 1024"
    by (simp add: getSizeBlockKernelsLinear_def getSizeBlockKernelsLinearMax_def)
  then have lt: "prod3 ?sz < 2 ^ 64" by simp
  have ex: "execute es k workSize s0 = grid_loop ?prog ?sz (sizeGridBlocks workSize) es ?s3" for es
    using le' by (simp add: execute_def getSizeBlockKernelsLinear_def getSizeBlockKernelsLinearMax_def Let_def)
  have ok: "prog_ok ?prog" by (rule prog_ok_fiberKernel)
  have one: "count_list ?prog GetIdxBlockKernel = 1"
    and simple: "GetBlockSharedExternMem \<notin> set ?prog" "\<forall>sz m. ReturnBack sz m \<notin> set ?prog"
    by (simp_all add: k record_kernel_code)
  from idle have idle3: "idle ?s3" by (simp add: idle_def)
  have N3: "m_uiNumKernelsPerBlock ?s3 = of_nat (prod3 ?sz)" by simp
  note out = blocks_loop_output [OF ok lt one simple idle3 N3]
  have A: "mset (recorded s') = mset (recorded s0) + mset (expected_output ?sz ?bs)"
    if "execute es k workSize s0 = Finished (s', rest)" for es s' rest
  proof -
    from that have "grid_loop ?prog ?sz (sizeGridBlocks workSize) es ?s3 = Finished (s', rest)"
      by (simp only: ex)
    from grid_loop_Finished [OF this] obtain t where
      t: "blocks_loop ?prog ?sz ?bs es ?s3 = Finished (t, rest)"
      and s': "s' = t\<lparr>m_v3uiGridBlockIdx := m_v3uiGridBlockIdx s'\<rparr>"
      by blast
    from s' have "recorded s' = recorded (t\<lparr>m_v3uiGridBlockIdx := m_v3uiGridBlockIdx s'\<rparr>)"
      by (rule arg_cong)
    then have "recorded s' = recorded t" by simp
    with out(1) [OF t] show ?thesis by simp
  qed
  have B: "distinct (expected_output ?sz ?bs)"
    by (rule distinct_expected_output [OF distinct_indices3])
  have C: "execute es k workSize s0 \<noteq> Failed err s1" for es err s1
    using out(2) [of ?bs es err s1] by (simp only: ex grid_loop_Failed) simp
  from blocks_loop_completion [OF ok simple(2) lt idle3 N3, of ?bs] obtain es t where
    "blocks_loop ?prog ?sz ?bs es ?s3 = Finished (t, [])" by blast
  from blocks_loop_Finished [OF this]
  have D: "\<exists>es s'. execute es k workSize s0 = Finished (s', [])"
    unfolding ex by blast
  have E: "map f_arg (m_vFibersInBlock s1) = indices3 ?sz"
    if "idle s" "m_uiNumKernelsPerBlock s = of_nat (prod3 ?sz)"
      "run_fibers ?prog es (begin_block ?sz b s) = Finished (s1, rest)" for b es s s1 rest
    by (rule block_output(1) [OF ok lt that])
  from A B C D E show ?thesis by blast
qed

theorem execute_records_every_lane_once_witness:
  "idle initial
   \<and> getSizeBlockKernelsLinear \<lparr>sizeGridBlocks = (2, 1, 1), sizeBlockKernels = (2, 1, 1)\<rparr>
       \<le> getSizeBlockKernelsLinearMax
   \<and> (\<exists>s'. execute
          [Spawn 5, Resume 0, Resume 0, Spawn 6, Resume 1, Resume 1, Resume 1, Resume 1,
           Resume 0, Resume 0, Resume 0, Resume 1,
           Spawn 5, Spawn 6, Resume 0, Resume 0, Resume 1, Resume 1, Resume 1, Resume 1,
           Resume 0, Resume 0, Resume 0, Resume 1]
          \<lparr>body = [RecordIdxBlockKernel], getBlockSharedExternMemSizeBytes = (\<lambda>v. 0)\<rparr>
          \<lparr>sizeGridBlocks = (2, 1, 1), sizeBlockKernels = (2, 1, 1)\<rparr> initial
        = Finished (s', [])
      \<and> mset (recorded s')
          = mset [RecIdx (0, 0, 0) (0, 0, 0), RecIdx (0, 0, 0) (1, 0, 0),
                  RecIdx (1, 0, 0) (0, 0, 0), RecIdx (1, 0, 0) (1, 0, 0)])"
proof -
  let ?k = "\<lparr>body = [RecordIdxBlockKernel], getBlockSharedExternMemSizeBytes = (\<lambda>v. 0)\<rparr>"
  let ?ws = "\<lparr>sizeGridBlocks = (2, 1, 1), sizeBlockKernels = (2, 1, 1)\<rparr>"
  let ?r = "execute
          [Spawn 5, Resume 0, Resume 0, Spawn 6, Resume 1, Resume 1, Resume 1, Resume 1,
           Resume 0, Resume 0, Resume 0, Resume 1,
           Spawn 5, Spawn 6, Resume 0, Resume 0, Resume 1, Resume 1, Resume 1, Resume 1,
           Resume 0, Resume 0, Resume 0, Resume 1] ?k ?ws initial"
  have idle: "idle initial" by (simp add: idle_def initial_def)
  have le: "getSizeBlockKernelsLinear ?ws \<le> getSizeBlockKernelsLinearMax"
    by (simp add: getSizeBlockKernelsLinear_def prod3_def getSizeBlockKernelsLinearMax_def)
  have k: "body ?k = [RecordIdxBlockKernel]" by simp
  have "case ?r of Finished (s', rest) \<Rightarrow> rest = [] | _ \<Rightarrow> False"
    by (simp add: eval_execute_defs eval_defs upt_rec)
  then obtain s' where fin: "?r = Finished (s', [])"
    by (cases ?r) auto
  have e: "expected_output (sizeBlockKernels ?ws) (indices3 (sizeGridBlocks ?ws))
      = [RecIdx (0, 0, 0) (0, 0, 0), RecIdx (0, 0, 0) (1, 0, 0),
         RecIdx (1, 0, 0) (0, 0, 0), RecIdx (1, 0, 0) (1, 0, 0)]"
    by (simp add: expected_output_def indices3_def upt_rec)
  have r0: "recorded initial = []" by (simp add: initial_def)
  from execute_records_every_lane_once [OF idle le k] fin
  have "mset (recorded s') = mset (recorded initial)
      + mset (expected_output (sizeBlockKernels ?ws) (indices3 (sizeGridBlocks ?ws)))"
    by blast
  then have "mset (recorded s')
          = mset [RecIdx (0, 0, 0) (0, 0, 0), RecIdx (0, 0, 0) (1, 0, 0),
                  RecIdx (1, 0, 0) (0, 0, 0), RecIdx (1, 0, 0) (1, 0, 0)]"
    unfolding e r0 by simp
  with idle le fin show ?thesis by blast
qed

end
